theory Spec2Isabelle
  imports Complex_Main "HOL-Library.Word"
begin

unbundle bit_operations_syntax

section \<open>Hamming(7,4) and extended Hamming(8,4)\<close>

text \<open>
  The component \<open>Hamming\<close> of \<open>hamming.ts\<close>. Its reactive values are pure functions of
  the signals they read, so each \<open>computed\<close> becomes a function of those inputs:
  \<open>dataBits\<close> (a list of bits, as JavaScript numbers), \<open>useExtended\<close> and
  \<open>errorPosition\<close> (a number or \<open>null\<close>). Bits are integers and \<open>^\<close> is the bitwise
  exclusive or. The user-visible message strings are represented by a datatype.
\<close>

datatype hamming_message = NoErrorDetected | ErrorCorrected int | SyndromeOutOfRange

record hamming_syndrome =
  s1 :: int
  s2 :: int
  s4 :: int
  syn_value :: int

record hamming_result =
  word :: "int list"
  errorAt :: int
  message :: hamming_message

definition encoded :: "int list \<Rightarrow> bool \<Rightarrow> int list" where
  "encoded d useExtended =
     (let p1 = d ! 0 XOR d ! 1 XOR d ! 3;
          p2 = d ! 0 XOR d ! 2 XOR d ! 3;
          p4 = d ! 1 XOR d ! 2 XOR d ! 3;
          codeword = [p1, p2, d ! 0, p4, d ! 1, d ! 2, d ! 3]
      in if useExtended then foldl (XOR) 0 codeword # codeword else codeword)"

definition received :: "int list \<Rightarrow> int option \<Rightarrow> int list" where
  "received enc errorPosition =
     (case errorPosition of
        None \<Rightarrow> enc
      | Some errPos \<Rightarrow>
          if errPos \<ge> 0 \<and> errPos < int (length enc)
          then enc[nat errPos := enc ! nat errPos XOR 1] else enc)"

definition syndrome :: "int list \<Rightarrow> bool \<Rightarrow> hamming_syndrome" where
  "syndrome r ext =
     (let w = (if ext then drop 1 r else r);
          a = w ! 0 XOR w ! 2 XOR w ! 4 XOR w ! 6;
          b = w ! 1 XOR w ! 2 XOR w ! 5 XOR w ! 6;
          c = w ! 3 XOR w ! 4 XOR w ! 5 XOR w ! 6
      in \<lparr>s1 = a, s2 = b, s4 = c, syn_value = a * 1 + b * 2 + c * 4\<rparr>)"

definition corrected :: "int list \<Rightarrow> bool \<Rightarrow> hamming_result" where
  "corrected r ext =
     (let syn = syndrome r ext in
      if syn_value syn = 0 then \<lparr>word = r, errorAt = - 1, message = NoErrorDetected\<rparr>
      else
        let errorIdx = (if ext then syn_value syn else syn_value syn - 1) in
        if errorIdx \<ge> 0 \<and> errorIdx < int (length r)
        then \<lparr>word = r[nat errorIdx := r ! nat errorIdx XOR 1], errorAt = errorIdx,
               message = ErrorCorrected (syn_value syn)\<rparr>
        else \<lparr>word = r, errorAt = - 1, message = SyndromeOutOfRange\<rparr>)"

text \<open>The whole pipeline of the page: encode, inject one flip, decode.\<close>

definition hamming_flip_decode :: "int list \<Rightarrow> bool \<Rightarrow> int \<Rightarrow> hamming_result" where
  "hamming_flip_decode d ext pos = corrected (received (encoded d ext) (Some pos)) ext"

subsection \<open>Shape lemmas for fixed-length bit lists\<close>

lemma list_of_length4: "length d = 4 \<Longrightarrow> \<exists>a b c e. d = [a, b, c, e]"
  by (cases d; simp; rename_tac x xs; case_tac xs; simp; rename_tac y ys; case_tac ys; simp;
      rename_tac z zs; case_tac zs; simp)

lemma list_of_length7:
  assumes "length r = 7"
  shows "\<exists>a b c d e f g. r = [a, b, c, d, e, f, g]"
proof -
  from assms obtain a r1 where 1: "r = a # r1" "length r1 = 6" by (cases r) auto
  then obtain b r2 where 2: "r1 = b # r2" "length r2 = 5" by (cases r1) auto
  then obtain c r3 where 3: "r2 = c # r3" "length r3 = 4" by (cases r2) auto
  from 3(2) obtain d e f g where "r3 = [d, e, f, g]" using list_of_length4 by blast
  with 1 2 3 show ?thesis by simp
qed

lemma index_below7:
  "0 \<le> p \<Longrightarrow> p < 7 \<Longrightarrow> p = 0 \<or> p = 1 \<or> p = 2 \<or> p = 3 \<or> p = 4 \<or> p = 5 \<or> p = (6::int)"
  by arith

lemma index_from1_below8:
  "1 \<le> p \<Longrightarrow> p < 8 \<Longrightarrow> p = 1 \<or> p = 2 \<or> p = 3 \<or> p = 4 \<or> p = 5 \<or> p = 6 \<or> p = (7::int)"
  by arith

lemmas hamming_defs =
  hamming_flip_decode_def encoded_def received_def corrected_def syndrome_def Let_def

subsection \<open>The concrete scenario\<close>

text \<open>
  Claim C8, as stated: with Hamming(7,4) and data bits \<open>[1,0,1,1]\<close> the encoder produces
  the codeword \<open>[1,1,1,0,0,1,1]\<close>. The encoder computes \<open>p1 = 1 XOR 0 XOR 1 = 0\<close>, so the
  first bit of the codeword is 0 and the stated codeword is not the one produced.
\<close>

theorem C8_codeword_counterexample:
  "encoded [1, 0, 1, 1] False \<noteq> [1, 1, 1, 0, 0, 1, 1]"
  by (simp add: encoded_def)

text \<open>
  Claim C8, amended: with Hamming(7,4) and data bits \<open>[1,0,1,1]\<close> the encoder produces the
  codeword \<open>[0,1,1,0,0,1,1]\<close>; flipping position 5 of that codeword (1-indexed, that is
  index 4) and decoding reports \<open>errorAt = 4\<close> (0-indexed) and the corrected word equals
  the original codeword.
\<close>

theorem C8_concrete_scenario:
  "encoded [1, 0, 1, 1] False = [0, 1, 1, 0, 0, 1, 1]
   \<and> received (encoded [1, 0, 1, 1] False) (Some 4) = [0, 1, 1, 0, 1, 1, 1]
   \<and> errorAt (hamming_flip_decode [1, 0, 1, 1] False 4) = 4
   \<and> message (hamming_flip_decode [1, 0, 1, 1] False 4) = ErrorCorrected 5
   \<and> word (hamming_flip_decode [1, 0, 1, 1] False 4) = encoded [1, 0, 1, 1] False"
  by (simp add: hamming_defs)

subsection \<open>Single-error correction\<close>

text \<open>
  Claim C2, as stated: in the extended (8,4) configuration a flip at every one of the 8
  positions is corrected exactly. The decoder never reads the overall parity bit at
  index 0 (it drops it before computing the syndrome), so a flip there leaves the
  syndrome zero and the word is returned with the flipped bit.
\<close>

theorem C2_extended_parity_flip_counterexample:
  "word (hamming_flip_decode [0, 0, 0, 0] True 0) \<noteq> encoded [0, 0, 0, 0] True
   \<and> word (hamming_flip_decode [0, 0, 0, 0] True 0) = [1, 0, 0, 0, 0, 0, 0, 0]
   \<and> errorAt (hamming_flip_decode [0, 0, 0, 0] True 0) = - 1"
  by (simp add: hamming_defs)

lemma hamming74_flip_corrected:
  assumes "length d = 4" and "set d \<subseteq> {0, 1}" and "0 \<le> p" and "p < 7"
  shows "word (hamming_flip_decode d False p) = encoded d False
         \<and> errorAt (hamming_flip_decode d False p) = p"
proof -
  from assms(1) obtain a b c e where d: "d = [a, b, c, e]"
    using list_of_length4 by blast
  with assms(2) have bits: "a = 0 \<or> a = 1" "b = 0 \<or> b = 1" "c = 0 \<or> c = 1" "e = 0 \<or> e = 1"
    by auto
  from assms(3,4) have "p = 0 \<or> p = 1 \<or> p = 2 \<or> p = 3 \<or> p = 4 \<or> p = 5 \<or> p = 6"
    using index_below7 by blast
  with bits show ?thesis
    unfolding d by (elim disjE; simp add: hamming_defs)
qed

lemma hamming84_flip_corrected:
  assumes "length d = 4" and "set d \<subseteq> {0, 1}" and "1 \<le> p" and "p < 8"
  shows "word (hamming_flip_decode d True p) = encoded d True
         \<and> errorAt (hamming_flip_decode d True p) = p"
proof -
  from assms(1) obtain a b c e where d: "d = [a, b, c, e]"
    using list_of_length4 by blast
  with assms(2) have bits: "a = 0 \<or> a = 1" "b = 0 \<or> b = 1" "c = 0 \<or> c = 1" "e = 0 \<or> e = 1"
    by auto
  from assms(3,4) have "p = 1 \<or> p = 2 \<or> p = 3 \<or> p = 4 \<or> p = 5 \<or> p = 6 \<or> p = 7"
    using index_from1_below8 by blast
  with bits show ?thesis
    unfolding d by (elim disjE; simp add: hamming_defs)
qed

lemma hamming84_parity_flip_unnoticed:
  assumes "length d = 4" and "set d \<subseteq> {0, 1}"
  shows "hamming_flip_decode d True 0 =
           \<lparr>word = received (encoded d True) (Some 0), errorAt = - 1,
            message = NoErrorDetected\<rparr>"
proof -
  from assms(1) obtain a b c e where d: "d = [a, b, c, e]"
    using list_of_length4 by blast
  with assms(2) have bits: "a = 0 \<or> a = 1" "b = 0 \<or> b = 1" "c = 0 \<or> c = 1" "e = 0 \<or> e = 1"
    by auto
  then show ?thesis
    unfolding d by (elim disjE; simp add: hamming_defs)
qed

text \<open>
  Claim C2, amended: for every 4-bit data word, flipping any single position 0..6 of the
  (7,4) codeword, or any single position 1..7 of the extended (8,4) codeword, and then
  decoding yields a corrected word equal to the original codeword, with \<open>errorAt\<close> the
  flipped index. A flip of the overall parity bit (position 0 of the extended codeword)
  gives syndrome 0 and the received word is returned as it is, reported as free of errors.
\<close>

theorem C2_single_error_corrected:
  assumes "length d = 4" and "set d \<subseteq> {0, 1}"
  shows "(\<forall>p. 0 \<le> p \<and> p < 7 \<longrightarrow>
            word (hamming_flip_decode d False p) = encoded d False
            \<and> errorAt (hamming_flip_decode d False p) = p)
       \<and> (\<forall>p. 1 \<le> p \<and> p < 8 \<longrightarrow>
            word (hamming_flip_decode d True p) = encoded d True
            \<and> errorAt (hamming_flip_decode d True p) = p)
       \<and> hamming_flip_decode d True 0 =
           \<lparr>word = received (encoded d True) (Some 0), errorAt = - 1,
            message = NoErrorDetected\<rparr>"
  using hamming74_flip_corrected [OF assms] hamming84_flip_corrected [OF assms]
    hamming84_parity_flip_unnoticed [OF assms]
  by blast

theorem C2_single_error_corrected_witness:
  "word (hamming_flip_decode [1, 0, 1, 1] False 6) = encoded [1, 0, 1, 1] False
   \<and> errorAt (hamming_flip_decode [1, 0, 1, 1] False 6) = 6
   \<and> word (hamming_flip_decode [1, 0, 1, 1] True 7) = encoded [1, 0, 1, 1] True
   \<and> errorAt (hamming_flip_decode [1, 0, 1, 1] True 7) = 7
   \<and> hamming_flip_decode [1, 0, 1, 1] True 0 =
       \<lparr>word = [1, 0, 1, 1, 0, 0, 1, 1], errorAt = - 1, message = NoErrorDetected\<rparr>"
proof -
  have len: "length [1, 0, 1, 1 :: int] = 4" by simp
  have bits: "set [1, 0, 1, 1 :: int] \<subseteq> {0, 1}" by simp
  have enc: "received (encoded [1, 0, 1, 1] True) (Some 0) = [1, 0, 1, 1, 0, 0, 1, 1]"
    by (simp add: encoded_def received_def)
  have six: "0 \<le> (6::int) \<and> (6::int) < 7" and seven: "1 \<le> (7::int) \<and> (7::int) < 8"
    by simp_all
  from C2_single_error_corrected [OF len bits] six seven show ?thesis
    unfolding enc by blast
qed

subsection \<open>The out-of-range branch\<close>

text \<open>
  Claim C10: for every received word of the supported lengths (7 bits when not extended,
  8 bits when extended) with bit values in \<open>{0,1}\<close>, the syndrome value lies in \<open>[0,7]\<close>,
  a non-zero value maps to a flip index strictly inside the word, and the decoder
  returns either the no-error result or a corrected word, never the out-of-range
  diagnostic.
\<close>

theorem C10_syndrome_in_range:
  assumes "length r = (if ext then 8 else 7)" and "set r \<subseteq> {0, 1}"
  shows "0 \<le> syn_value (syndrome r ext) \<and> syn_value (syndrome r ext) \<le> 7
         \<and> (syn_value (syndrome r ext) \<noteq> 0 \<longrightarrow>
              0 \<le> errorAt (corrected r ext) \<and> errorAt (corrected r ext) < int (length r)
              \<and> errorAt (corrected r ext) =
                  (if ext then syn_value (syndrome r ext) else syn_value (syndrome r ext) - 1))
         \<and> message (corrected r ext) \<noteq> SyndromeOutOfRange"
proof (cases ext)
  case False
  with assms(1) have "length r = 7" by simp
  then obtain a b c d e f g where r: "r = [a, b, c, d, e, f, g]"
    using list_of_length7 by blast
  with assms(2) have "a = 0 \<or> a = 1" "b = 0 \<or> b = 1" "c = 0 \<or> c = 1" "d = 0 \<or> d = 1"
    "e = 0 \<or> e = 1" "f = 0 \<or> f = 1" "g = 0 \<or> g = 1"
    by auto
  then show ?thesis unfolding r using False
    by (elim disjE; simp add: corrected_def syndrome_def Let_def)
next
  case True
  with assms(1) obtain p0 w where rw: "r = p0 # w" "length w = 7" by (cases r) auto
  then obtain a b c d e f g where w: "w = [a, b, c, d, e, f, g]"
    using list_of_length7 by blast
  with rw assms(2) have "a = 0 \<or> a = 1" "b = 0 \<or> b = 1" "c = 0 \<or> c = 1" "d = 0 \<or> d = 1"
    "e = 0 \<or> e = 1" "f = 0 \<or> f = 1" "g = 0 \<or> g = 1"
    by auto
  then show ?thesis unfolding rw(1) w using True
    by (elim disjE; simp add: corrected_def syndrome_def Let_def)
qed

theorem C10_syndrome_in_range_witness:
  "syn_value (syndrome [1, 1, 1, 1, 0, 1, 1, 0] True) = 3
   \<and> errorAt (corrected [1, 1, 1, 1, 0, 1, 1, 0] True) = 3
   \<and> message (corrected [1, 1, 1, 1, 0, 1, 1, 0] True) \<noteq> SyndromeOutOfRange"
proof -
  have len: "length [1, 1, 1, 1, 0, 1, 1, 0 :: int] = (if True then 8 else 7)" by simp
  have bits: "set [1, 1, 1, 1, 0, 1, 1, 0 :: int] \<subseteq> {0, 1}" by simp
  have syn: "syn_value (syndrome [1, 1, 1, 1, 0, 1, 1, 0] True) = 3"
    by (simp add: syndrome_def)
  show ?thesis
    using C10_syndrome_in_range [OF len bits] by (simp add: syn)
qed


section \<open>Arithmetic of GF(2^8)\<close>

text \<open>
  The module-level tables of \<open>reed-solomon.ts\<close>. A JavaScript array created by
  \<open>new Array(n)\<close> has \<open>n\<close> holes; a hole, like an index outside the array, reads as
  \<open>undefined\<close>. Arrays of numbers are therefore lists of \<open>int option\<close>, \<open>None\<close> standing
  for \<open>undefined\<close> (and for the \<open>NaN\<close> that arithmetic makes of it).
\<close>

definition GF_POLY :: int where "GF_POLY = 0x11d"
definition GF_SIZE :: int where "GF_SIZE = 256"

type_synonym js_array = "int option list"

definition js_read :: "js_array \<Rightarrow> int \<Rightarrow> int option" where
  "js_read xs i = (if 0 \<le> i \<and> i < int (length xs) then xs ! nat i else None)"

text \<open>The first loop of \<open>initGF\<close>: \<open>k\<close> iterations are left, \<open>i\<close> is the loop variable.\<close>

fun initGF_fill :: "nat \<Rightarrow> int \<Rightarrow> int \<Rightarrow> js_array \<times> js_array \<Rightarrow> js_array \<times> js_array" where
  "initGF_fill 0 i x (ex, lg) = (ex, lg)"
| "initGF_fill (Suc k) i x (ex, lg) =
     (let ex' = ex[nat i := Some x];
          lg' = lg[nat x := Some i];
          x1 = push_bit 1 x;
          x2 = (if x1 \<ge> GF_SIZE then (x1 XOR GF_POLY) AND 0xff else x1)
      in initGF_fill k (i + 1) x2 (ex', lg'))"

text \<open>The second loop: \<open>gfExp[i] = gfExp[i - 255]\<close> for \<open>i\<close> from 255 to 511.\<close>

fun initGF_copy :: "nat \<Rightarrow> int \<Rightarrow> js_array \<Rightarrow> js_array" where
  "initGF_copy 0 i ex = ex"
| "initGF_copy (Suc k) i ex = initGF_copy k (i + 1) (ex[nat i := js_read ex (i - 255)])"

definition initGF :: "js_array \<times> js_array" where
  "initGF =
     (let (ex, lg) = initGF_fill 255 0 1 (replicate 512 None, replicate 256 None);
          ex' = initGF_copy 257 255 ex
      in (ex', lg[0 := Some (- 1)]))"

definition gfExp :: js_array where "gfExp = fst initGF"
definition gfLog :: js_array where "gfLog = snd initGF"

datatype rs_error = DivisionByZero | TooManyErrors | LocatorMismatch

text \<open>JavaScript's \<open>%\<close> truncates towards zero.\<close>

definition js_rem :: "int \<Rightarrow> int \<Rightarrow> int" where
  "js_rem a b = sgn a * (\<bar>a\<bar> mod \<bar>b\<bar>)"

definition gfMul :: "int \<Rightarrow> int \<Rightarrow> int option" where
  "gfMul a b =
     (if a = 0 \<or> b = 0 then Some 0
      else case (js_read gfLog a, js_read gfLog b) of
             (Some la, Some lb) \<Rightarrow> js_read gfExp (la + lb)
           | _ \<Rightarrow> None)"

definition gfDiv :: "int \<Rightarrow> int \<Rightarrow> rs_error + int option" where
  "gfDiv a b =
     (if b = 0 then Inl DivisionByZero
      else if a = 0 then Inr (Some 0)
      else case (js_read gfLog a, js_read gfLog b) of
             (Some la, Some lb) \<Rightarrow> Inr (js_read gfExp (js_rem (la - lb + 255) 255))
           | _ \<Rightarrow> Inr None)"

definition gfPow :: "int \<Rightarrow> int \<Rightarrow> int option" where
  "gfPow x pw =
     (case js_read gfLog x of
        Some lx \<Rightarrow> js_read gfExp (js_rem (lx * pw) 255)
      | None \<Rightarrow> None)"

definition gfInverse :: "int \<Rightarrow> int option" where
  "gfInverse x =
     (case js_read gfLog x of
        Some lx \<Rightarrow> js_read gfExp (255 - lx)
      | None \<Rightarrow> None)"

subsection \<open>The tables, computed\<close>

lemma gfExp_table: "gfExp = [
     Some 1, Some 2, Some 4, Some 8, Some 16, Some 32, Some 64, Some 128, Some 29, Some 58, Some 116, Some 232,
     Some 205, Some 135, Some 19, Some 38, Some 76, Some 152, Some 45, Some 90, Some 180, Some 117, Some 234, Some 201,
     Some 143, Some 3, Some 6, Some 12, Some 24, Some 48, Some 96, Some 192, Some 157, Some 39, Some 78, Some 156,
     Some 37, Some 74, Some 148, Some 53, Some 106, Some 212, Some 181, Some 119, Some 238, Some 193, Some 159, Some 35,
     Some 70, Some 140, Some 5, Some 10, Some 20, Some 40, Some 80, Some 160, Some 93, Some 186, Some 105, Some 210,
     Some 185, Some 111, Some 222, Some 161, Some 95, Some 190, Some 97, Some 194, Some 153, Some 47, Some 94, Some 188,
     Some 101, Some 202, Some 137, Some 15, Some 30, Some 60, Some 120, Some 240, Some 253, Some 231, Some 211, Some 187,
     Some 107, Some 214, Some 177, Some 127, Some 254, Some 225, Some 223, Some 163, Some 91, Some 182, Some 113, Some 226,
     Some 217, Some 175, Some 67, Some 134, Some 17, Some 34, Some 68, Some 136, Some 13, Some 26, Some 52, Some 104,
     Some 208, Some 189, Some 103, Some 206, Some 129, Some 31, Some 62, Some 124, Some 248, Some 237, Some 199, Some 147,
     Some 59, Some 118, Some 236, Some 197, Some 151, Some 51, Some 102, Some 204, Some 133, Some 23, Some 46, Some 92,
     Some 184, Some 109, Some 218, Some 169, Some 79, Some 158, Some 33, Some 66, Some 132, Some 21, Some 42, Some 84,
     Some 168, Some 77, Some 154, Some 41, Some 82, Some 164, Some 85, Some 170, Some 73, Some 146, Some 57, Some 114,
     Some 228, Some 213, Some 183, Some 115, Some 230, Some 209, Some 191, Some 99, Some 198, Some 145, Some 63, Some 126,
     Some 252, Some 229, Some 215, Some 179, Some 123, Some 246, Some 241, Some 255, Some 227, Some 219, Some 171, Some 75,
     Some 150, Some 49, Some 98, Some 196, Some 149, Some 55, Some 110, Some 220, Some 165, Some 87, Some 174, Some 65,
     Some 130, Some 25, Some 50, Some 100, Some 200, Some 141, Some 7, Some 14, Some 28, Some 56, Some 112, Some 224,
     Some 221, Some 167, Some 83, Some 166, Some 81, Some 162, Some 89, Some 178, Some 121, Some 242, Some 249, Some 239,
     Some 195, Some 155, Some 43, Some 86, Some 172, Some 69, Some 138, Some 9, Some 18, Some 36, Some 72, Some 144,
     Some 61, Some 122, Some 244, Some 245, Some 247, Some 243, Some 251, Some 235, Some 203, Some 139, Some 11, Some 22,
     Some 44, Some 88, Some 176, Some 125, Some 250, Some 233, Some 207, Some 131, Some 27, Some 54, Some 108, Some 216,
     Some 173, Some 71, Some 142, Some 1, Some 2, Some 4, Some 8, Some 16, Some 32, Some 64, Some 128, Some 29,
     Some 58, Some 116, Some 232, Some 205, Some 135, Some 19, Some 38, Some 76, Some 152, Some 45, Some 90, Some 180,
     Some 117, Some 234, Some 201, Some 143, Some 3, Some 6, Some 12, Some 24, Some 48, Some 96, Some 192, Some 157,
     Some 39, Some 78, Some 156, Some 37, Some 74, Some 148, Some 53, Some 106, Some 212, Some 181, Some 119, Some 238,
     Some 193, Some 159, Some 35, Some 70, Some 140, Some 5, Some 10, Some 20, Some 40, Some 80, Some 160, Some 93,
     Some 186, Some 105, Some 210, Some 185, Some 111, Some 222, Some 161, Some 95, Some 190, Some 97, Some 194, Some 153,
     Some 47, Some 94, Some 188, Some 101, Some 202, Some 137, Some 15, Some 30, Some 60, Some 120, Some 240, Some 253,
     Some 231, Some 211, Some 187, Some 107, Some 214, Some 177, Some 127, Some 254, Some 225, Some 223, Some 163, Some 91,
     Some 182, Some 113, Some 226, Some 217, Some 175, Some 67, Some 134, Some 17, Some 34, Some 68, Some 136, Some 13,
     Some 26, Some 52, Some 104, Some 208, Some 189, Some 103, Some 206, Some 129, Some 31, Some 62, Some 124, Some 248,
     Some 237, Some 199, Some 147, Some 59, Some 118, Some 236, Some 197, Some 151, Some 51, Some 102, Some 204, Some 133,
     Some 23, Some 46, Some 92, Some 184, Some 109, Some 218, Some 169, Some 79, Some 158, Some 33, Some 66, Some 132,
     Some 21, Some 42, Some 84, Some 168, Some 77, Some 154, Some 41, Some 82, Some 164, Some 85, Some 170, Some 73,
     Some 146, Some 57, Some 114, Some 228, Some 213, Some 183, Some 115, Some 230, Some 209, Some 191, Some 99, Some 198,
     Some 145, Some 63, Some 126, Some 252, Some 229, Some 215, Some 179, Some 123, Some 246, Some 241, Some 255, Some 227,
     Some 219, Some 171, Some 75, Some 150, Some 49, Some 98, Some 196, Some 149, Some 55, Some 110, Some 220, Some 165,
     Some 87, Some 174, Some 65, Some 130, Some 25, Some 50, Some 100, Some 200, Some 141, Some 7, Some 14, Some 28,
     Some 56, Some 112, Some 224, Some 221, Some 167, Some 83, Some 166, Some 81, Some 162, Some 89, Some 178, Some 121,
     Some 242, Some 249, Some 239, Some 195, Some 155, Some 43, Some 86, Some 172, Some 69, Some 138, Some 9, Some 18,
     Some 36, Some 72, Some 144, Some 61, Some 122, Some 244, Some 245, Some 247, Some 243, Some 251, Some 235, Some 203,
     Some 139, Some 11, Some 22, Some 44, Some 88, Some 176, Some 125, Some 250, Some 233, Some 207, Some 131, Some 27,
     Some 54, Some 108, Some 216, Some 173, Some 71, Some 142, Some 1, Some 2]"
  by code_simp

lemma gfLog_table: "gfLog = [
     Some (- 1), Some 0, Some 1, Some 25, Some 2, Some 50, Some 26, Some 198, Some 3, Some 223, Some 51, Some 238,
     Some 27, Some 104, Some 199, Some 75, Some 4, Some 100, Some 224, Some 14, Some 52, Some 141, Some 239, Some 129,
     Some 28, Some 193, Some 105, Some 248, Some 200, Some 8, Some 76, Some 113, Some 5, Some 138, Some 101, Some 47,
     Some 225, Some 36, Some 15, Some 33, Some 53, Some 147, Some 142, Some 218, Some 240, Some 18, Some 130, Some 69,
     Some 29, Some 181, Some 194, Some 125, Some 106, Some 39, Some 249, Some 185, Some 201, Some 154, Some 9, Some 120,
     Some 77, Some 228, Some 114, Some 166, Some 6, Some 191, Some 139, Some 98, Some 102, Some 221, Some 48, Some 253,
     Some 226, Some 152, Some 37, Some 179, Some 16, Some 145, Some 34, Some 136, Some 54, Some 208, Some 148, Some 206,
     Some 143, Some 150, Some 219, Some 189, Some 241, Some 210, Some 19, Some 92, Some 131, Some 56, Some 70, Some 64,
     Some 30, Some 66, Some 182, Some 163, Some 195, Some 72, Some 126, Some 110, Some 107, Some 58, Some 40, Some 84,
     Some 250, Some 133, Some 186, Some 61, Some 202, Some 94, Some 155, Some 159, Some 10, Some 21, Some 121, Some 43,
     Some 78, Some 212, Some 229, Some 172, Some 115, Some 243, Some 167, Some 87, Some 7, Some 112, Some 192, Some 247,
     Some 140, Some 128, Some 99, Some 13, Some 103, Some 74, Some 222, Some 237, Some 49, Some 197, Some 254, Some 24,
     Some 227, Some 165, Some 153, Some 119, Some 38, Some 184, Some 180, Some 124, Some 17, Some 68, Some 146, Some 217,
     Some 35, Some 32, Some 137, Some 46, Some 55, Some 63, Some 209, Some 91, Some 149, Some 188, Some 207, Some 205,
     Some 144, Some 135, Some 151, Some 178, Some 220, Some 252, Some 190, Some 97, Some 242, Some 86, Some 211, Some 171,
     Some 20, Some 42, Some 93, Some 158, Some 132, Some 60, Some 57, Some 83, Some 71, Some 109, Some 65, Some 162,
     Some 31, Some 45, Some 67, Some 216, Some 183, Some 123, Some 164, Some 118, Some 196, Some 23, Some 73, Some 236,
     Some 127, Some 12, Some 111, Some 246, Some 108, Some 161, Some 59, Some 82, Some 41, Some 157, Some 85, Some 170,
     Some 251, Some 96, Some 134, Some 177, Some 187, Some 204, Some 62, Some 90, Some 203, Some 89, Some 95, Some 176,
     Some 156, Some 169, Some 160, Some 81, Some 11, Some 245, Some 22, Some 235, Some 122, Some 117, Some 44, Some 215,
     Some 79, Some 174, Some 213, Some 233, Some 230, Some 231, Some 173, Some 232, Some 116, Some 214, Some 244, Some 234,
     Some 168, Some 80, Some 88, Some 175]"
  by code_simp

lemma length_gfExp: "length gfExp = 512"
  unfolding gfExp_table by simp

lemma length_gfLog: "length gfLog = 256"
  unfolding gfLog_table by simp

text \<open>Every non-zero byte has a logarithm below 255, and the antilogarithm gives it back.\<close>

lemma gfLog_entries:
  "list_all (\<lambda>a. case js_read gfLog a of
                    None \<Rightarrow> False
                  | Some l \<Rightarrow> 0 \<le> l \<and> l \<le> 254 \<and> js_read gfExp l = Some a) [1..255]"
  unfolding gfExp_table gfLog_table by code_simp

text \<open>Every exponent below 255 has a non-zero byte as power, whose logarithm it is.\<close>

lemma gfExp_entries:
  "list_all (\<lambda>i. case js_read gfExp i of
                    None \<Rightarrow> False
                  | Some v \<Rightarrow> 1 \<le> v \<and> v \<le> 255 \<and> js_read gfLog v = Some i) [0..254]"
  unfolding gfExp_table gfLog_table by code_simp

text \<open>The upper part of the antilog table repeats the lower part.\<close>

lemma gfExp_repeats:
  "list_all (\<lambda>i. js_read gfExp i = js_read gfExp (i - 255)) [255..511]"
  unfolding gfExp_table by code_simp

lemma gfLog_byte:
  assumes "1 \<le> a" and "a \<le> 255"
  obtains l where "js_read gfLog a = Some l" and "0 \<le> l" and "l \<le> 254"
    and "js_read gfExp l = Some a"
proof -
  from assms have "a \<in> set [1..255]" by (simp only: set_upto atLeastAtMost_iff)
  with gfLog_entries
  have "case js_read gfLog a of None \<Rightarrow> False
        | Some l \<Rightarrow> 0 \<le> l \<and> l \<le> 254 \<and> js_read gfExp l = Some a"
    unfolding list_all_iff by blast
  then show thesis using that by (cases "js_read gfLog a") auto
qed

lemma gfExp_low:
  assumes "0 \<le> i" and "i \<le> 254"
  obtains v where "js_read gfExp i = Some v" and "1 \<le> v" and "v \<le> 255"
    and "js_read gfLog v = Some i"
proof -
  from assms have "i \<in> set [0..254]" by (simp only: set_upto atLeastAtMost_iff)
  with gfExp_entries
  have "case js_read gfExp i of None \<Rightarrow> False
        | Some v \<Rightarrow> 1 \<le> v \<and> v \<le> 255 \<and> js_read gfLog v = Some i"
    unfolding list_all_iff by blast
  then show thesis using that by (cases "js_read gfExp i") auto
qed

lemma gfExp_high:
  assumes "255 \<le> i" and "i \<le> 511"
  shows "js_read gfExp i = js_read gfExp (i - 255)"
proof -
  from assms have "i \<in> set [255..511]" by (simp only: set_upto atLeastAtMost_iff)
  with gfExp_repeats show ?thesis unfolding list_all_iff by blast
qed

text \<open>Reading the antilog table at any index up to 508 is reading it at the index mod 255.\<close>

lemma gfExp_mod:
  assumes "0 \<le> i" and "i \<le> 508"
  shows "js_read gfExp i = js_read gfExp (i mod 255)"
proof (cases "i \<le> 254")
  case True
  with assms show ?thesis by simp
next
  case False
  with assms have "(i - 255) mod 255 = i - 255"
    by (intro mod_pos_pos_trivial) simp_all
  then have "i mod 255 = i - 255"
    unfolding minus_mod_self2 .
  with False assms show ?thesis using gfExp_high [of i] by simp
qed

lemma js_rem_nonneg: "0 \<le> a \<Longrightarrow> 0 < b \<Longrightarrow> js_rem a b = a mod b"
  by (cases "a = 0") (simp_all add: js_rem_def)

lemma gfMul_nonzero:
  assumes a: "1 \<le> a" "a \<le> 255" and b: "1 \<le> b" "b \<le> 255"
  obtains la lb v where "js_read gfLog a = Some la" and "js_read gfLog b = Some lb"
    and "0 \<le> la + lb" and "la + lb \<le> 508"
    and "gfMul a b = Some v" and "1 \<le> v" and "v \<le> 255"
    and "js_read gfLog v = Some ((la + lb) mod 255)"
proof -
  from a obtain la where la: "js_read gfLog a = Some la" "0 \<le> la" "la \<le> 254"
    by (rule gfLog_byte)
  from b obtain lb where lb: "js_read gfLog b = Some lb" "0 \<le> lb" "lb \<le> 254"
    by (rule gfLog_byte)
  from la lb have range: "0 \<le> la + lb" "la + lb \<le> 508" by simp_all
  then have m: "0 \<le> (la + lb) mod 255" "(la + lb) mod 255 \<le> 254" by simp_all
  then obtain v where v: "js_read gfExp ((la + lb) mod 255) = Some v" "1 \<le> v" "v \<le> 255"
    "js_read gfLog v = Some ((la + lb) mod 255)"
    by (rule gfExp_low)
  from a b la lb have "gfMul a b = js_read gfExp (la + lb)"
    by (simp add: gfMul_def)
  with v range have "gfMul a b = Some v" using gfExp_mod [of "la + lb"] by simp
  with la lb range v show thesis using that by blast
qed

lemma gfMul_closed:
  assumes "0 \<le> a" "a \<le> 255" "0 \<le> b" "b \<le> 255"
  shows "\<exists>v. gfMul a b = Some v \<and> 0 \<le> v \<and> v \<le> 255"
proof (cases "a = 0 \<or> b = 0")
  case True
  then show ?thesis by (auto simp: gfMul_def)
next
  case False
  with assms have "1 \<le> a" "a \<le> 255" "1 \<le> b" "b \<le> 255" by simp_all
  then obtain v where "gfMul a b = Some v" "1 \<le> v" "v \<le> 255"
    by (rule gfMul_nonzero)
  then show ?thesis by simp
qed

lemma gfDiv_nonzero:
  assumes a: "1 \<le> a" "a \<le> 255" and b: "1 \<le> b" "b \<le> 255"
  obtains la lb v where "js_read gfLog a = Some la" and "js_read gfLog b = Some lb"
    and "gfDiv a b = Inr (Some v)" and "1 \<le> v" and "v \<le> 255"
    and "js_read gfLog v = Some ((la - lb) mod 255)"
proof -
  from a obtain la where la: "js_read gfLog a = Some la" "0 \<le> la" "la \<le> 254"
    by (rule gfLog_byte)
  from b obtain lb where lb: "js_read gfLog b = Some lb" "0 \<le> lb" "lb \<le> 254"
    by (rule gfLog_byte)
  from la lb have "0 \<le> la - lb + 255" by simp
  then have rem: "js_rem (la - lb + 255) 255 = (la - lb) mod 255"
    by (simp add: js_rem_nonneg)
  have m: "0 \<le> (la - lb) mod 255" "(la - lb) mod 255 \<le> 254" by simp_all
  then obtain v where v: "js_read gfExp ((la - lb) mod 255) = Some v" "1 \<le> v" "v \<le> 255"
    "js_read gfLog v = Some ((la - lb) mod 255)"
    by (rule gfExp_low)
  from a b la lb rem v have "gfDiv a b = Inr (Some v)"
    by (simp add: gfDiv_def)
  with la lb v show thesis using that by blast
qed

lemma gfDiv_closed:
  assumes "0 \<le> a" "a \<le> 255" "1 \<le> b" "b \<le> 255"
  shows "\<exists>v. gfDiv a b = Inr (Some v) \<and> 0 \<le> v \<and> v \<le> 255"
proof (cases "a = 0")
  case True
  with assms show ?thesis by (simp add: gfDiv_def)
next
  case False
  with assms have "1 \<le> a" "a \<le> 255" "1 \<le> b" "b \<le> 255" by simp_all
  then obtain v where "gfDiv a b = Inr (Some v)" "1 \<le> v" "v \<le> 255"
    by (rule gfDiv_nonzero)
  then show ?thesis by simp
qed

lemma gfDiv_gfMul_cancel:
  assumes a: "0 \<le> a" "a \<le> 255" and b: "1 \<le> b" "b \<le> 255"
  shows "\<exists>m. gfMul a b = Some m \<and> gfDiv m b = Inr (Some a)"
proof (cases "a = 0")
  case True
  with b show ?thesis by (simp add: gfMul_def gfDiv_def)
next
  case False
  with a have a1: "1 \<le> a" by simp
  from a1 a(2) b obtain la lb m where la: "js_read gfLog a = Some la"
    and lb: "js_read gfLog b = Some lb"
    and m: "gfMul a b = Some m" "1 \<le> m" "m \<le> 255"
    and lm: "js_read gfLog m = Some ((la + lb) mod 255)"
    by (rule gfMul_nonzero)
  from a1 a(2) obtain la' where la': "js_read gfLog a = Some la'" "0 \<le> la'" "la' \<le> 254"
    "js_read gfExp la' = Some a"
    by (rule gfLog_byte)
  from m(2,3) b obtain lm' lb' v where "js_read gfLog m = Some lm'"
    "js_read gfLog b = Some lb'" and v: "gfDiv m b = Inr (Some v)"
    and lv: "js_read gfLog v = Some ((lm' - lb') mod 255)" and vr: "1 \<le> v" "v \<le> 255"
    by (rule gfDiv_nonzero)
  with lm lb have "js_read gfLog v = Some (((la + lb) mod 255 - lb) mod 255)" by simp
  also have "((la + lb) mod 255 - lb) mod 255 = la mod 255"
    by (simp add: mod_diff_left_eq)
  also from la la' have "la mod 255 = la'" by simp
  finally have "js_read gfLog v = Some la'" .
  moreover from vr obtain l where "js_read gfLog v = Some l" "js_read gfExp l = Some v"
    by (rule gfLog_byte)
  ultimately have "v = a" using la'(4) by simp
  with m v show ?thesis by simp
qed

lemma gfMul_gfInverse:
  assumes "1 \<le> a" "a \<le> 255"
  shows "\<exists>i. gfInverse a = Some i \<and> 1 \<le> i \<and> i \<le> 255 \<and> gfMul a i = Some 1"
proof -
  from assms obtain la where la: "js_read gfLog a = Some la" "0 \<le> la" "la \<le> 254"
    by (rule gfLog_byte)
  then have r: "0 \<le> 255 - la" "255 - la \<le> 508" by simp_all
  have m: "0 \<le> (255 - la) mod 255" "(255 - la) mod 255 \<le> 254" by simp_all
  then obtain i where i: "js_read gfExp ((255 - la) mod 255) = Some i" "1 \<le> i" "i \<le> 255"
    "js_read gfLog i = Some ((255 - la) mod 255)"
    by (rule gfExp_low)
  from la have inv: "gfInverse a = js_read gfExp (255 - la)"
    by (simp add: gfInverse_def)
  with i r have inv': "gfInverse a = Some i" using gfExp_mod [of "255 - la"] by simp
  from assms i(2,3) obtain la' li v where "js_read gfLog a = Some la'"
    "js_read gfLog i = Some li" and v: "gfMul a i = Some v" "1 \<le> v" "v \<le> 255"
    and lv: "js_read gfLog v = Some ((la' + li) mod 255)"
    by (rule gfMul_nonzero)
  with la i have "js_read gfLog v = Some ((la + (255 - la) mod 255) mod 255)" by simp
  also have "(la + (255 - la) mod 255) mod 255 = 0"
    by (simp add: mod_add_right_eq)
  finally have "js_read gfLog v = Some 0" .
  moreover from v(2,3) obtain l where "js_read gfLog v = Some l" "js_read gfExp l = Some v"
    by (rule gfLog_byte)
  moreover have "js_read gfExp 0 = Some 1"
    unfolding gfExp_table by (simp add: js_read_def)
  ultimately have "v = 1" by simp
  with inv' i v show ?thesis by simp
qed

text \<open>
  Claim C4: for all \<open>a\<close> in \<open>[0,255]\<close> and all non-zero \<open>b\<close> in \<open>[1,255]\<close>,
  \<open>gfDiv(gfMul(a,b), b) = a\<close>; and for all non-zero \<open>a\<close> in \<open>[1,255]\<close>,
  \<open>gfMul(a, gfInverse(a)) = 1\<close>. Both operations return a number, not \<open>undefined\<close>.
\<close>

theorem C4_field_identities:
  "(\<forall>a b. 0 \<le> a \<and> a \<le> 255 \<and> 1 \<le> b \<and> b \<le> 255 \<longrightarrow>
       (\<exists>m. gfMul a b = Some m \<and> gfDiv m b = Inr (Some a)))
   \<and> (\<forall>a. 1 \<le> a \<and> a \<le> 255 \<longrightarrow>
       (\<exists>i. gfInverse a = Some i \<and> gfMul a i = Some 1))"
proof (intro conjI allI impI)
  fix a b :: int
  assume "0 \<le> a \<and> a \<le> 255 \<and> 1 \<le> b \<and> b \<le> 255"
  then show "\<exists>m. gfMul a b = Some m \<and> gfDiv m b = Inr (Some a)"
    using gfDiv_gfMul_cancel [of a b] by simp
next
  fix a :: int
  assume "1 \<le> a \<and> a \<le> 255"
  then obtain i where "gfInverse a = Some i" "gfMul a i = Some 1"
    using gfMul_gfInverse [of a] by auto
  then show "\<exists>i. gfInverse a = Some i \<and> gfMul a i = Some 1" by simp
qed

theorem C4_field_identities_witness:
  "(\<exists>m. gfMul 87 19 = Some m \<and> gfDiv m 19 = Inr (Some 87))
   \<and> (\<exists>i. gfInverse 87 = Some i \<and> gfMul 87 i = Some 1)"
proof -
  have h1: "0 \<le> (87::int) \<and> (87::int) \<le> 255 \<and> 1 \<le> (19::int) \<and> (19::int) \<le> 255"
    and h2: "1 \<le> (87::int) \<and> (87::int) \<le> 255"
    by simp_all
  show ?thesis
    using C4_field_identities [THEN conjunct1, THEN spec, THEN spec, THEN mp, OF h1]
      C4_field_identities [THEN conjunct2, THEN spec, THEN mp, OF h2]
    by (rule conjI)
qed

text \<open>
  Claim C9: for all \<open>a\<close>, \<open>b\<close> in \<open>[0,255]\<close>, \<open>gfMul(a,b)\<close> returns a value in \<open>[0,255]\<close>,
  and the index \<open>gfLog[a] + gfLog[b]\<close> at which it reads the antilog table (when both
  operands are non-zero) lies in \<open>[0,508]\<close>, inside the table of 512 entries, whose entries
  at 255..509 repeat those at 0..254; likewise \<open>gfDiv(a,b)\<close> for \<open>b \<noteq> 0\<close> returns a value
  in \<open>[0,255]\<close>.
\<close>

theorem C9_gf_closure:
  "(\<forall>a b. 0 \<le> a \<and> a \<le> 255 \<and> 0 \<le> b \<and> b \<le> 255 \<longrightarrow>
       (\<exists>v. gfMul a b = Some v \<and> 0 \<le> v \<and> v \<le> 255)
       \<and> (a \<noteq> 0 \<and> b \<noteq> 0 \<longrightarrow>
            (\<exists>la lb. js_read gfLog a = Some la \<and> js_read gfLog b = Some lb
                     \<and> 0 \<le> la + lb \<and> la + lb \<le> 508 \<and> la + lb < int (length gfExp)))
       \<and> (b \<noteq> 0 \<longrightarrow> (\<exists>v. gfDiv a b = Inr (Some v) \<and> 0 \<le> v \<and> v \<le> 255)))
   \<and> length gfExp = 512
   \<and> (\<forall>i. 255 \<le> i \<and> i \<le> 509 \<longrightarrow> js_read gfExp i = js_read gfExp (i - 255))"
proof (intro conjI allI impI)
  fix a b :: int
  assume r: "0 \<le> a \<and> a \<le> 255 \<and> 0 \<le> b \<and> b \<le> 255"
  then show "\<exists>v. gfMul a b = Some v \<and> 0 \<le> v \<and> v \<le> 255"
    using gfMul_closed [of a b] by simp
  show "\<exists>la lb. js_read gfLog a = Some la \<and> js_read gfLog b = Some lb
                     \<and> 0 \<le> la + lb \<and> la + lb \<le> 508 \<and> la + lb < int (length gfExp)"
    if "a \<noteq> 0 \<and> b \<noteq> 0"
  proof -
    from r that have "1 \<le> a" "a \<le> 255" "1 \<le> b" "b \<le> 255" by simp_all
    then obtain la lb where "js_read gfLog a = Some la" "js_read gfLog b = Some lb"
      "0 \<le> la + lb" "la + lb \<le> 508"
      by (rule gfMul_nonzero)
    then show ?thesis by (simp add: length_gfExp)
  qed
  show "\<exists>v. gfDiv a b = Inr (Some v) \<and> 0 \<le> v \<and> v \<le> 255" if "b \<noteq> 0"
    using r that gfDiv_closed [of a b] by simp
next
  show "length gfExp = 512" by (rule length_gfExp)
next
  fix i :: int
  assume "255 \<le> i \<and> i \<le> 509"
  then show "js_read gfExp i = js_read gfExp (i - 255)"
    using gfExp_high [of i] by simp
qed

theorem C9_gf_closure_witness:
  "(\<exists>v. gfMul 255 255 = Some v \<and> 0 \<le> v \<and> v \<le> 255)
   \<and> (\<exists>la lb. js_read gfLog 255 = Some la \<and> js_read gfLog 255 = Some lb
               \<and> 0 \<le> la + lb \<and> la + lb \<le> 508 \<and> la + lb < int (length gfExp))
   \<and> (\<exists>v. gfDiv 255 255 = Inr (Some v) \<and> 0 \<le> v \<and> v \<le> 255)
   \<and> js_read gfExp 300 = js_read gfExp (300 - 255)"
proof -
  have h1: "0 \<le> (255::int) \<and> (255::int) \<le> 255 \<and> 0 \<le> (255::int) \<and> (255::int) \<le> 255"
    and h2: "(255::int) \<noteq> 0 \<and> (255::int) \<noteq> 0" and h3: "(255::int) \<noteq> 0"
    and h4: "255 \<le> (300::int) \<and> (300::int) \<le> 509"
    by simp_all
  note A = C9_gf_closure [THEN conjunct1, THEN spec, THEN spec, THEN mp, OF h1]
  note B = C9_gf_closure [THEN conjunct2, THEN conjunct2, THEN spec, THEN mp, OF h4]
  from A have "\<exists>v. gfMul 255 255 = Some v \<and> 0 \<le> v \<and> v \<le> 255"
    by (rule conjunct1)
  moreover have "\<exists>la lb. js_read gfLog 255 = Some la \<and> js_read gfLog 255 = Some lb
               \<and> 0 \<le> la + lb \<and> la + lb \<le> 508 \<and> la + lb < int (length gfExp)"
    by (rule A [THEN conjunct2, THEN conjunct1, THEN mp, OF h2])
  moreover have "\<exists>v. gfDiv 255 255 = Inr (Some v) \<and> 0 \<le> v \<and> v \<le> 255"
    by (rule A [THEN conjunct2, THEN conjunct2, THEN mp, OF h3])
  ultimately show ?thesis using B by (intro conjI)
qed


section \<open>LDPC decoding by min-sum belief propagation\<close>

text \<open>
  The decoder of \<open>ldpc.ts\<close>. Log-likelihood ratios are JavaScript numbers; they are
  modelled as real numbers extended by the two infinities and \<open>NaN\<close>, with the IEEE rules
  for them (rounding is not modelled). A read outside an array gives \<open>undefined\<close>, which
  every numeric operation of the decoder treats as \<open>NaN\<close>.
\<close>

datatype jsnum = Fin real | PInf | NInf | NaN

fun js_ge0 :: "jsnum \<Rightarrow> bool" where
  "js_ge0 (Fin r) = (0 \<le> r)"
| "js_ge0 PInf = True"
| "js_ge0 NInf = False"
| "js_ge0 NaN = False"

fun js_lt0 :: "jsnum \<Rightarrow> bool" where
  "js_lt0 (Fin r) = (r < 0)"
| "js_lt0 PInf = False"
| "js_lt0 NInf = True"
| "js_lt0 NaN = False"

fun js_abs :: "jsnum \<Rightarrow> jsnum" where
  "js_abs (Fin r) = Fin \<bar>r\<bar>"
| "js_abs PInf = PInf"
| "js_abs NInf = PInf"
| "js_abs NaN = NaN"

fun js_neg :: "jsnum \<Rightarrow> jsnum" where
  "js_neg (Fin r) = Fin (- r)"
| "js_neg PInf = NInf"
| "js_neg NInf = PInf"
| "js_neg NaN = NaN"

fun js_min :: "jsnum \<Rightarrow> jsnum \<Rightarrow> jsnum" where
  "js_min NaN y = NaN"
| "js_min x NaN = NaN"
| "js_min NInf y = NInf"
| "js_min x NInf = NInf"
| "js_min PInf y = y"
| "js_min x PInf = x"
| "js_min (Fin a) (Fin b) = Fin (min a b)"

fun js_add :: "jsnum \<Rightarrow> jsnum \<Rightarrow> jsnum" where
  "js_add NaN y = NaN"
| "js_add x NaN = NaN"
| "js_add PInf NInf = NaN"
| "js_add NInf PInf = NaN"
| "js_add PInf y = PInf"
| "js_add x PInf = PInf"
| "js_add NInf y = NInf"
| "js_add x NInf = NInf"
| "js_add (Fin a) (Fin b) = Fin (a + b)"

definition js_sub :: "jsnum \<Rightarrow> jsnum \<Rightarrow> jsnum" where
  "js_sub x y = js_add x (js_neg y)"

fun js_mul :: "jsnum \<Rightarrow> jsnum \<Rightarrow> jsnum" where
  "js_mul NaN y = NaN"
| "js_mul x NaN = NaN"
| "js_mul (Fin a) (Fin b) = Fin (a * b)"
| "js_mul (Fin a) PInf = (if a = 0 then NaN else if 0 < a then PInf else NInf)"
| "js_mul (Fin a) NInf = (if a = 0 then NaN else if 0 < a then NInf else PInf)"
| "js_mul PInf (Fin b) = (if b = 0 then NaN else if 0 < b then PInf else NInf)"
| "js_mul NInf (Fin b) = (if b = 0 then NaN else if 0 < b then NInf else PInf)"
| "js_mul PInf PInf = PInf"
| "js_mul PInf NInf = NInf"
| "js_mul NInf PInf = NInf"
| "js_mul NInf NInf = PInf"

text \<open>\<open>Math.log((1 - p) / p)\<close>.\<close>

definition js_log_ratio :: "real \<Rightarrow> jsnum" where
  "js_log_ratio p =
     (if p = 0 then PInf
      else let q = (1 - p) / p in
        if q < 0 then NaN else if q = 0 then NInf else Fin (ln q))"

record bp_iteration =
  iteration :: nat
  checkToVar :: "jsnum list list"
  varToCheck :: "jsnum list list"
  beliefs :: "jsnum list"
  decoded :: "int list"
  syndromeOk :: bool

record bp_result =
  res_decoded :: "int list"
  converged :: bool
  iterations :: nat
  maxIter :: nat

text \<open>\<open>h[i][j]\<close>, \<open>xs[j]\<close> and \<open>v[i][j]\<close>, with \<open>undefined\<close> for a read outside.\<close>

definition h_at :: "int list list \<Rightarrow> nat \<Rightarrow> nat \<Rightarrow> int option" where
  "h_at h i j = (if i < length h \<and> j < length (h ! i) then Some (h ! i ! j) else None)"

definition llr_at :: "jsnum list \<Rightarrow> nat \<Rightarrow> jsnum" where
  "llr_at xs j = (if j < length xs then xs ! j else NaN)"

definition msg_at :: "jsnum list list \<Rightarrow> nat \<Rightarrow> nat \<Rightarrow> jsnum" where
  "msg_at v i j = (if i < length v then llr_at (v ! i) j else NaN)"

definition bit_at :: "int list \<Rightarrow> nat \<Rightarrow> int" where
  "bit_at d j = (if j < length d then d ! j else 0)"

definition numCheckNodes :: "int list list \<Rightarrow> nat" where
  "numCheckNodes h = length h"

definition numVarNodes :: "int list list \<Rightarrow> nat" where
  "numVarNodes h = (case h of [] \<Rightarrow> 0 | row # _ \<Rightarrow> length row)"

definition channelLLR :: "int list \<Rightarrow> real \<Rightarrow> jsnum list" where
  "channelLLR r p =
     (let llr0 = js_log_ratio p; llr1 = js_neg llr0
      in map (\<lambda>bit. if bit = 0 then llr0 else llr1) r)"

definition init_varToCheck :: "int list list \<Rightarrow> jsnum list \<Rightarrow> jsnum list list" where
  "init_varToCheck h channelLlr =
     map (\<lambda>i. map (\<lambda>j. if h_at h i j = Some 1 then llr_at channelLlr j else Fin 0)
                [0..<numVarNodes h])
         [0..<numCheckNodes h]"

text \<open>The inner loop over \<open>jj\<close>: the running sign and minimum of one check-to-variable message.\<close>

definition sign_min_step ::
  "int list list \<Rightarrow> jsnum list list \<Rightarrow> nat \<Rightarrow> nat \<Rightarrow> real \<times> jsnum \<Rightarrow> nat \<Rightarrow> real \<times> jsnum" where
  "sign_min_step h v2c i j acc jj =
     (if jj = j \<or> h_at h i jj = Some 0 then acc
      else let msg = msg_at v2c i jj
           in (fst acc * (if js_ge0 msg then 1 else - 1), js_min (snd acc) (js_abs msg)))"

definition checkToVar_entry ::
  "int list list \<Rightarrow> jsnum list list \<Rightarrow> nat \<Rightarrow> nat \<Rightarrow> jsnum" where
  "checkToVar_entry h v2c i j =
     (if h_at h i j = Some 0 then Fin 0
      else let (sgn', minAbs) = foldl (sign_min_step h v2c i j) (1, PInf) [0..<numVarNodes h]
           in js_mul (js_mul (Fin sgn') minAbs) (Fin (9 / 10)))"

definition belief_of :: "int list list \<Rightarrow> jsnum list \<Rightarrow> jsnum list list \<Rightarrow> nat \<Rightarrow> jsnum" where
  "belief_of h channelLlr c2v j =
     foldl (\<lambda>totalLlr i. if h_at h i j = Some 1 then js_add totalLlr (msg_at c2v i j) else totalLlr)
       (llr_at channelLlr j) [0..<numCheckNodes h]"

text \<open>The syndrome loop, which leaves at the first failing check row.\<close>

definition row_parity :: "int list list \<Rightarrow> int list \<Rightarrow> nat \<Rightarrow> int" where
  "row_parity h d i =
     foldl (\<lambda>s j. if h_at h i j = Some 1 then s XOR bit_at d j else s) 0 [0..<numVarNodes h]"

fun syndrome_loop :: "int list list \<Rightarrow> int list \<Rightarrow> nat list \<Rightarrow> bool" where
  "syndrome_loop h d [] = True"
| "syndrome_loop h d (i # rows) = (if row_parity h d i \<noteq> 0 then False else syndrome_loop h d rows)"

definition bp_step :: "int list list \<Rightarrow> jsnum list \<Rightarrow> jsnum list list \<Rightarrow> nat \<Rightarrow> bp_iteration" where
  "bp_step h channelLlr v2c iter =
     (let m = numCheckNodes h; n = numVarNodes h;
          c2v = map (\<lambda>i. map (\<lambda>j. checkToVar_entry h v2c i j) [0..<n]) [0..<m];
          bel = map (\<lambda>j. belief_of h channelLlr c2v j) [0..<n];
          newV2c = map (\<lambda>i. map (\<lambda>j. if h_at h i j = Some 0 then Fin 0
                                      else js_sub (llr_at bel j) (msg_at c2v i j)) [0..<n]) [0..<m];
          dec = map (\<lambda>b. if js_lt0 b then 1 else 0) bel
      in \<lparr>iteration = iter + 1, checkToVar = c2v, varToCheck = newV2c, beliefs = bel,
          decoded = dec, syndromeOk = syndrome_loop h dec [0..<m]\<rparr>)"

text \<open>The main loop: \<open>k\<close> iterations are left before the cap, \<open>iter\<close> is the loop variable.\<close>

fun bp_loop ::
  "nat \<Rightarrow> nat \<Rightarrow> int list list \<Rightarrow> jsnum list \<Rightarrow> jsnum list list \<Rightarrow> bp_iteration list" where
  "bp_loop 0 iter h channelLlr v2c = []"
| "bp_loop (Suc k) iter h channelLlr v2c =
     (let it = bp_step h channelLlr v2c iter
      in if syndromeOk it then [it]
         else it # bp_loop k (iter + 1) h channelLlr (varToCheck it))"

definition bpIterations :: "int list list \<Rightarrow> jsnum list \<Rightarrow> nat \<Rightarrow> bp_iteration list" where
  "bpIterations h channelLlr cap = bp_loop cap 0 h channelLlr (init_varToCheck h channelLlr)"

text \<open>
  \<open>finalResult\<close> reads the list of iterations, the received word and the cap;
  \<open>ldpc_decode\<close> is the page's whole chain from the received word to the result.
\<close>

definition finalResult :: "bp_iteration list \<Rightarrow> int list \<Rightarrow> nat \<Rightarrow> bp_result" where
  "finalResult iters r cap =
     (if length iters = 0
      then \<lparr>res_decoded = r, converged = False, iterations = 0, maxIter = cap\<rparr>
      else let l = last iters in
        \<lparr>res_decoded = decoded l, converged = syndromeOk l, iterations = length iters,
         maxIter = cap\<rparr>)"

definition ldpc_decode :: "int list list \<Rightarrow> int list \<Rightarrow> real \<Rightarrow> nat \<Rightarrow> bp_result" where
  "ldpc_decode h r p cap = finalResult (bpIterations h (channelLLR r p) cap) r cap"

text \<open>The syndrome condition as the specification words it: every check row XORs to zero.\<close>

definition zero_syndrome :: "int list list \<Rightarrow> int list \<Rightarrow> bool" where
  "zero_syndrome h d = (\<forall>i < numCheckNodes h. row_parity h d i = 0)"

lemma syndrome_loop_iff: "syndrome_loop h d rows = (\<forall>i \<in> set rows. row_parity h d i = 0)"
  by (induction rows) auto

lemma syndromeOk_bp_step:
  "syndromeOk (bp_step h cl v iter) = zero_syndrome h (decoded (bp_step h cl v iter))"
  by (auto simp: bp_step_def Let_def syndrome_loop_iff zero_syndrome_def)

lemma iteration_bp_step: "iteration (bp_step h cl v iter) = iter + 1"
  by (simp add: bp_step_def Let_def)

lemma length_bp_loop: "length (bp_loop k iter h cl v) \<le> k"
  by (induction k arbitrary: iter v) (auto simp: Let_def)

lemma bp_loop_nonempty: "0 < k \<Longrightarrow> bp_loop k iter h cl v \<noteq> []"
  by (cases k) (auto simp: Let_def)

lemma bp_loop_prefix_fails:
  "i + 1 < length (bp_loop k iter h cl v) \<Longrightarrow> \<not> syndromeOk (bp_loop k iter h cl v ! i)"
proof (induction k arbitrary: iter v i)
  case 0
  then show ?case by simp
next
  case (Suc k)
  show ?case
  proof (cases "syndromeOk (bp_step h cl v iter)")
    case True
    with Suc.prems show ?thesis by (simp add: Let_def)
  next
    case False
    show ?thesis
    proof (cases i)
      case 0
      with False show ?thesis by (simp add: Let_def)
    next
      case (Suc i')
      with False Suc.prems Suc.IH [of i' "iter + 1" "varToCheck (bp_step h cl v iter)"]
      show ?thesis by (simp add: Let_def)
    qed
  qed
qed

lemma bp_loop_entries:
  "i < length (bp_loop k iter h cl v) \<Longrightarrow>
     iteration (bp_loop k iter h cl v ! i) = iter + i + 1
     \<and> syndromeOk (bp_loop k iter h cl v ! i) = zero_syndrome h (decoded (bp_loop k iter h cl v ! i))"
proof (induction k arbitrary: iter v i)
  case 0
  then show ?case by simp
next
  case (Suc k)
  show ?case
  proof (cases i)
    case 0
    then show ?thesis
      by (simp add: Let_def iteration_bp_step syndromeOk_bp_step [symmetric])
  next
    case (Suc i')
    with Suc.prems have ns: "\<not> syndromeOk (bp_step h cl v iter)"
      by (auto simp: Let_def split: if_splits)
    with Suc Suc.prems Suc.IH [of i' "iter + 1" "varToCheck (bp_step h cl v iter)"]
    show ?thesis by (simp add: Let_def)
  qed
qed

lemma bp_loop_cap_reached:
  "0 < k \<Longrightarrow> \<not> syndromeOk (last (bp_loop k iter h cl v)) \<Longrightarrow> length (bp_loop k iter h cl v) = k"
proof (induction k arbitrary: iter v)
  case 0
  then show ?case by simp
next
  case (Suc k)
  show ?case
  proof (cases "syndromeOk (bp_step h cl v iter)")
    case True
    with Suc.prems show ?thesis by (simp add: Let_def)
  next
    case False
    show ?thesis
    proof (cases k)
      case 0
      with False show ?thesis by (simp add: Let_def)
    next
      case (Suc k')
      then have ne: "bp_loop k (iter + 1) h cl (varToCheck (bp_step h cl v iter)) \<noteq> []"
        using bp_loop_nonempty [of k] by simp
      with False Suc.prems(2)
      have "\<not> syndromeOk (last (bp_loop k (iter + 1) h cl (varToCheck (bp_step h cl v iter))))"
        by (simp add: Let_def)
      with Suc Suc.IH [of "iter + 1" "varToCheck (bp_step h cl v iter)"] False
      show ?thesis by (simp add: Let_def)
    qed
  qed
qed


subsection \<open>Messages that are never negative\<close>

definition nonneg_or_nan :: "jsnum \<Rightarrow> bool" where
  "nonneg_or_nan x = (x = NaN \<or> js_ge0 x)"

lemma nonneg_or_nan_not_lt0: "nonneg_or_nan x \<Longrightarrow> \<not> js_lt0 x"
  by (cases x) (auto simp: nonneg_or_nan_def)

lemma nonneg_or_nan_add: "nonneg_or_nan x \<Longrightarrow> nonneg_or_nan y \<Longrightarrow> nonneg_or_nan (js_add x y)"
  by (cases x; cases y) (auto simp: nonneg_or_nan_def)

lemma msg_at_table:
  "msg_at (map (\<lambda>i. map (f i) [0..<n]) [0..<m]) i j = (if i < m \<and> j < n then f i j else NaN)"
  by (simp add: msg_at_def llr_at_def)

lemma llr_at_table: "llr_at (map f [0..<n]) j = (if j < n then f j else NaN)"
  by (simp add: llr_at_def)

lemma sign_min_step_inv:
  assumes "nonneg_or_nan (msg_at v i jj)"
    and "(fst acc = 1 \<and> js_ge0 (snd acc)) \<or> snd acc = NaN"
  shows "(fst (sign_min_step h v i j acc jj) = 1 \<and> js_ge0 (snd (sign_min_step h v i j acc jj)))
         \<or> snd (sign_min_step h v i j acc jj) = NaN"
proof (cases "jj = j \<or> h_at h i jj = Some 0")
  case True
  with assms(2) show ?thesis by (simp add: sign_min_step_def)
next
  case False
  show ?thesis
  proof (cases "msg_at v i jj = NaN \<or> snd acc = NaN")
    case True
    with False show ?thesis
      by (cases "snd acc") (auto simp: sign_min_step_def Let_def)
  next
    case nn: False
    with assms have "js_ge0 (msg_at v i jj)" "fst acc = 1" "js_ge0 (snd acc)"
      by (auto simp: nonneg_or_nan_def)
    with False show ?thesis
      by (cases "msg_at v i jj"; cases "snd acc") (auto simp: sign_min_step_def Let_def)
  qed
qed

lemma sign_min_fold_inv:
  assumes "\<And>jj. nonneg_or_nan (msg_at v i jj)"
    and "(fst acc = 1 \<and> js_ge0 (snd acc)) \<or> snd acc = NaN"
  shows "(fst (foldl (sign_min_step h v i j) acc js) = 1
            \<and> js_ge0 (snd (foldl (sign_min_step h v i j) acc js)))
         \<or> snd (foldl (sign_min_step h v i j) acc js) = NaN"
  using assms(2)
proof (induction js arbitrary: acc)
  case Nil
  then show ?case by simp
next
  case (Cons jj js)
  from sign_min_step_inv [OF assms(1) Cons.prems]
  show ?case by (simp add: Cons.IH)
qed

lemma checkToVar_entry_nonneg:
  assumes "\<And>jj. nonneg_or_nan (msg_at v i jj)"
  shows "nonneg_or_nan (checkToVar_entry h v i j)"
proof (cases "h_at h i j = Some 0")
  case True
  then show ?thesis by (simp add: checkToVar_entry_def nonneg_or_nan_def)
next
  case False
  obtain s mn where sm: "foldl (sign_min_step h v i j) (1, PInf) [0..<numVarNodes h] = (s, mn)"
    by (cases "foldl (sign_min_step h v i j) (1, PInf) [0..<numVarNodes h]")
  have "(fst (1::real, PInf) = 1 \<and> js_ge0 (snd (1::real, PInf))) \<or> snd (1::real, PInf) = NaN"
    by simp
  from sign_min_fold_inv [OF assms this, of h j "[0..<numVarNodes h]"] sm
  have "(s = 1 \<and> js_ge0 mn) \<or> mn = NaN" by simp
  then have "nonneg_or_nan (js_mul (js_mul (Fin s) mn) (Fin (9 / 10)))"
    by (cases mn) (auto simp: nonneg_or_nan_def)
  with False sm show ?thesis by (simp add: checkToVar_entry_def)
qed

lemma belief_fold_nonneg:
  assumes "\<And>i. nonneg_or_nan (msg_at c i j)" and "nonneg_or_nan t"
  shows "nonneg_or_nan
           (foldl (\<lambda>totalLlr i. if h_at h i j = Some 1 then js_add totalLlr (msg_at c i j)
                                else totalLlr) t rows)"
  using assms(2)
proof (induction rows arbitrary: t)
  case Nil
  then show ?case by simp
next
  case (Cons i rows)
  then show ?case by (simp add: nonneg_or_nan_add assms(1))
qed

lemma row_parity_zero:
  assumes "\<And>j. bit_at d j = 0"
  shows "row_parity h d i = 0"
proof -
  have "foldl (\<lambda>s j. if h_at h i j = Some 1 then s XOR bit_at d j else s) 0 js = 0" for js
    by (induction js) (simp_all add: assms)
  then show ?thesis by (simp add: row_parity_def)
qed

lemma bp_step_nonneg:
  assumes v: "\<And>i jj. nonneg_or_nan (msg_at v i jj)"
    and cl: "\<And>j. nonneg_or_nan (llr_at cl j)"
  shows "decoded (bp_step h cl v iter) = replicate (numVarNodes h) 0"
    and "syndromeOk (bp_step h cl v iter)"
proof -
  let ?c2v = "map (\<lambda>i. map (\<lambda>j. checkToVar_entry h v i j) [0..<numVarNodes h])
                [0..<numCheckNodes h]"
  have c2v: "nonneg_or_nan (msg_at ?c2v i j)" for i j
    by (simp add: msg_at_table checkToVar_entry_nonneg v) (simp add: nonneg_or_nan_def)
  have bel: "nonneg_or_nan (belief_of h cl ?c2v j)" for j
    unfolding belief_of_def by (rule belief_fold_nonneg [OF c2v cl])
  have dec: "decoded (bp_step h cl v iter)
      = map (\<lambda>j. if js_lt0 (belief_of h cl ?c2v j) then 1 else 0) [0..<numVarNodes h]"
    by (simp add: bp_step_def Let_def comp_def)
  also have "\<dots> = map (\<lambda>j. 0) [0..<numVarNodes h]"
    by (simp add: nonneg_or_nan_not_lt0 [OF bel])
  also have "\<dots> = replicate (numVarNodes h) 0"
    by (simp add: map_replicate_const)
  finally show d: "decoded (bp_step h cl v iter) = replicate (numVarNodes h) 0" .
  have "bit_at (decoded (bp_step h cl v iter)) j = 0" for j
    by (simp add: d bit_at_def)
  then have "zero_syndrome h (decoded (bp_step h cl v iter))"
    by (simp add: zero_syndrome_def row_parity_zero)
  then show "syndromeOk (bp_step h cl v iter)"
    by (simp add: syndromeOk_bp_step)
qed

lemma js_log_ratio_pos:
  assumes "0 < p" "p < 1 / 2"
  shows "\<exists>l. js_log_ratio p = Fin l \<and> 0 < l"
proof -
  from assms have q: "1 < (1 - p) / p" by (simp add: field_simps)
  then have "0 < ln ((1 - p) / p)" by simp
  moreover from q have "\<not> (1 - p) / p < 0" "(1 - p) / p \<noteq> 0" by linarith+
  ultimately show ?thesis using assms(1) by (simp add: js_log_ratio_def Let_def)
qed

lemma channelLLR_zero_word:
  assumes "0 < p" "p < 1 / 2" and "\<forall>b \<in> set r. b = 0"
  shows "nonneg_or_nan (llr_at (channelLLR r p) j)"
proof -
  from js_log_ratio_pos [OF assms(1,2)] obtain l where "js_log_ratio p = Fin l" "0 < l"
    by blast
  with assms(3) show ?thesis
    by (auto simp: channelLLR_def llr_at_def Let_def nonneg_or_nan_def)
qed

lemma init_varToCheck_nonneg:
  assumes "\<And>j. nonneg_or_nan (llr_at cl j)"
  shows "nonneg_or_nan (msg_at (init_varToCheck h cl) i j)"
  unfolding init_varToCheck_def msg_at_table
  using assms by (simp add: nonneg_or_nan_def)


text \<open>
  Claim C6: for every parity-check matrix, vector of channel LLRs (in particular the one
  made from a received word and a flip probability), received word and cap \<open>maxIter \<ge> 1\<close>,
  the decoder records at least one and at most \<open>maxIter\<close> iterations, numbered from 1; the
  flag \<open>syndromeOk\<close> of an iteration says that every check row XORs to zero on its hard
  decision; no iteration before the last has a zero syndrome, so the loop stops at the
  first one that has; and when the last iteration has a non-zero syndrome the cap was
  reached and the result is \<open>converged = false\<close> with the hard decision of that last
  iteration, while a zero syndrome gives \<open>converged = true\<close>.
\<close>

theorem C6_iteration_cap_and_early_stop:
  assumes "1 \<le> cap"
  shows "1 \<le> length (bpIterations h cl cap) \<and> length (bpIterations h cl cap) \<le> cap
    \<and> (\<forall>k < length (bpIterations h cl cap).
          iteration (bpIterations h cl cap ! k) = k + 1
          \<and> syndromeOk (bpIterations h cl cap ! k)
              = zero_syndrome h (decoded (bpIterations h cl cap ! k)))
    \<and> (\<forall>k. k + 1 < length (bpIterations h cl cap) \<longrightarrow>
          \<not> zero_syndrome h (decoded (bpIterations h cl cap ! k)))
    \<and> (\<not> zero_syndrome h (decoded (last (bpIterations h cl cap))) \<longrightarrow>
          length (bpIterations h cl cap) = cap
          \<and> finalResult (bpIterations h cl cap) r cap =
              \<lparr>res_decoded = decoded (last (bpIterations h cl cap)), converged = False,
               iterations = cap, maxIter = cap\<rparr>)
    \<and> (zero_syndrome h (decoded (last (bpIterations h cl cap))) \<longrightarrow>
          finalResult (bpIterations h cl cap) r cap =
              \<lparr>res_decoded = decoded (last (bpIterations h cl cap)), converged = True,
               iterations = length (bpIterations h cl cap), maxIter = cap\<rparr>)"
proof -
  let ?its = "bpIterations h cl cap"
  from assms have ne: "?its \<noteq> []"
    unfolding bpIterations_def by (intro bp_loop_nonempty) simp
  then have len1: "1 \<le> length ?its" by (cases ?its) simp_all
  have len2: "length ?its \<le> cap"
    unfolding bpIterations_def by (rule length_bp_loop)
  have ent: "iteration (?its ! k) = k + 1
      \<and> syndromeOk (?its ! k) = zero_syndrome h (decoded (?its ! k))" if "k < length ?its" for k
    using that bp_loop_entries [of k cap 0 h cl "init_varToCheck h cl"]
    unfolding bpIterations_def by simp
  have pre: "\<not> zero_syndrome h (decoded (?its ! k))" if "k + 1 < length ?its" for k
  proof -
    from that have "\<not> syndromeOk (?its ! k)"
      unfolding bpIterations_def by (rule bp_loop_prefix_fails)
    moreover from that have "k < length ?its" by simp
    ultimately show ?thesis using ent by simp
  qed
  from ne have lastn: "last ?its = ?its ! (length ?its - 1)" by (rule last_conv_nth)
  from len1 have "length ?its - 1 < length ?its" by simp
  from ent [OF this] lastn
  have oklast: "syndromeOk (last ?its) = zero_syndrome h (decoded (last ?its))" by simp
  have capped: "length ?its = cap
      \<and> finalResult ?its r cap =
          \<lparr>res_decoded = decoded (last ?its), converged = False, iterations = cap,
           maxIter = cap\<rparr>"
    if "\<not> zero_syndrome h (decoded (last ?its))"
  proof -
    from that oklast have nok: "\<not> syndromeOk (last ?its)" by simp
    with assms have "length ?its = cap"
      unfolding bpIterations_def by (intro bp_loop_cap_reached) simp_all
    moreover from ne have "length ?its \<noteq> 0" by simp
    ultimately show ?thesis using nok by (simp add: finalResult_def Let_def)
  qed
  have conv: "finalResult ?its r cap =
          \<lparr>res_decoded = decoded (last ?its), converged = True,
           iterations = length ?its, maxIter = cap\<rparr>"
    if "zero_syndrome h (decoded (last ?its))"
    using that oklast ne by (simp add: finalResult_def)
  from len1 len2 ent pre capped conv show ?thesis by (intro conjI allI impI) simp_all
qed

text \<open>
  A run that reaches the cap: one check on two variables, the received word \<open>[1,0]\<close>
  with LLRs \<open>-1\<close> and \<open>1\<close>, cap 2. Both iterations decide \<open>[1,0]\<close>, whose parity is 1.
\<close>

theorem C6_iteration_cap_and_early_stop_witness:
  "length (bpIterations [[1, 1]] [Fin (- 1), Fin 1] 2) = 2
   \<and> \<not> zero_syndrome [[1, 1]] (decoded (last (bpIterations [[1, 1]] [Fin (- 1), Fin 1] 2)))
   \<and> finalResult (bpIterations [[1, 1]] [Fin (- 1), Fin 1] 2) [1, 0] 2 =
       \<lparr>res_decoded = [1, 0], converged = False, iterations = 2, maxIter = 2\<rparr>"
proof -
  have cap: "1 \<le> (2::nat)" by simp
  have run: "map decoded (bpIterations [[1, 1]] [Fin (- 1), Fin 1] 2) = [[1, 0], [1, 0]]"
    by code_simp
  then have len: "length (bpIterations [[1, 1]] [Fin (- 1), Fin 1] 2) = 2"
    using length_map [of decoded "bpIterations [[1, 1]] [Fin (- 1), Fin 1] 2"] by simp
  then have ne: "bpIterations [[1, 1]] [Fin (- 1), Fin 1] 2 \<noteq> []" by auto
  from run have dl: "decoded (last (bpIterations [[1, 1]] [Fin (- 1), Fin 1] 2)) = [1, 0]"
    using last_map [OF ne, of decoded] by simp
  have nz: "\<not> zero_syndrome [[1, 1]] [1, 0]"
    by (simp add: zero_syndrome_def numCheckNodes_def row_parity_def numVarNodes_def h_at_def
        bit_at_def upt_rec)
  from C6_iteration_cap_and_early_stop [OF cap, of "[[1, 1]]" "[Fin (- 1), Fin 1]" "[1, 0]"]
    len dl nz
  show ?thesis by simp
qed

text \<open>
  Claim C7: for every parity-check matrix, flip probability \<open>p\<close> with \<open>0 < p < 0.5\<close> and
  \<open>maxIter \<ge> 1\<close>, decoding an all-zero received word returns the all-zero hard decision
  (one bit per column of the matrix) with \<open>converged = true\<close>, the zero syndrome being
  reached on the first iteration.
\<close>

theorem C7_all_zero_fixed_point:
  assumes "0 < p" and "p < 1 / 2" and "1 \<le> cap" and "\<forall>b \<in> set r. b = 0"
  shows "ldpc_decode h r p cap =
           \<lparr>res_decoded = replicate (numVarNodes h) 0, converged = True, iterations = 1,
            maxIter = cap\<rparr>"
proof -
  let ?cl = "channelLLR r p"
  let ?it = "bp_step h ?cl (init_varToCheck h ?cl) 0"
  have cl: "nonneg_or_nan (llr_at ?cl j)" for j
    by (rule channelLLR_zero_word [OF assms(1,2,4)])
  have v: "nonneg_or_nan (msg_at (init_varToCheck h ?cl) i j)" for i j
    by (rule init_varToCheck_nonneg [OF cl])
  have d: "decoded ?it = replicate (numVarNodes h) 0" and ok: "syndromeOk ?it"
    using bp_step_nonneg [OF v cl] by blast+
  from assms(3) obtain k where k: "cap = Suc k" by (cases cap) auto
  from ok have "bpIterations h ?cl cap = [?it]"
    by (simp add: bpIterations_def k Let_def)
  with d ok show ?thesis by (simp add: ldpc_decode_def finalResult_def)
qed

theorem C7_all_zero_fixed_point_witness:
  "ldpc_decode
     [[0, 1, 1, 1, 0, 1, 0, 1], [0, 1, 1, 0, 1, 0, 1, 1],
      [1, 0, 0, 1, 0, 1, 1, 1], [1, 0, 1, 1, 1, 0, 1, 0]]
     [0, 0, 0, 0, 0, 0, 0, 0] (15 / 100) 50 =
   \<lparr>res_decoded = [0, 0, 0, 0, 0, 0, 0, 0], converged = True, iterations = 1, maxIter = 50\<rparr>"
proof -
  have p: "0 < (15 / 100 :: real)" "(15 / 100 :: real) < 1 / 2" by simp_all
  have cap: "1 \<le> (50::nat)" by simp
  have r: "\<forall>b \<in> set [0, 0, 0, 0, 0, 0, 0, 0 :: int]. b = 0" by simp
  have n: "replicate (numVarNodes [[0, 1, 1, 1, 0, 1, 0, 1], [0, 1, 1, 0, 1, 0, 1, 1],
      [1, 0, 0, 1, 0, 1, 1, 1], [1, 0, 1, 1, 1, 0, 1, 0]]) (0::int) = [0, 0, 0, 0, 0, 0, 0, 0]"
    by (simp add: numVarNodes_def numeral_eq_Suc)
  from C7_all_zero_fixed_point [OF p cap r, of "[[0, 1, 1, 1, 0, 1, 0, 1],
      [0, 1, 1, 0, 1, 0, 1, 1], [1, 0, 0, 1, 0, 1, 1, 1], [1, 0, 1, 1, 1, 0, 1, 0]]"]
  show ?thesis
    unfolding n .
qed



section \<open>Polar code with successive-cancellation decoding\<close>

text \<open>
  The functions and the component \<open>Polar\<close> of \<open>polar.ts\<close>. Bits are integers. The LLRs of
  the decoder are JavaScript numbers; they start at \<open>2\<close> and \<open>- 2\<close> and are combined by
  minimum, negation, addition and subtraction only, so they stay integers far below
  \<open>2^53\<close> for every array length JavaScript allows, and floating-point arithmetic on them
  is exact. They are modelled as reals.
\<close>

definition kronecker :: "int list list \<Rightarrow> int list list \<Rightarrow> int list list" where
  "kronecker a b =
     (let am = length a; an = length (a ! 0); bm = length b; bn = length (b ! 0)
      in map (\<lambda>i. map (\<lambda>j. a ! (i div bm) ! (j div bn) * b ! (i mod bm) ! (j mod bn))
                      [0..<an * bn])
             [0..<am * bm])"

definition polar_F :: "int list list" where
  "polar_F = [[1, 0], [1, 1]]"

text \<open>The loop of \<open>generateG\<close> runs \<open>n - 1\<close> times, and not at all for \<open>n \<le> 1\<close>.\<close>

definition generateG :: "nat \<Rightarrow> int list list" where
  "generateG n =
     map (map (\<lambda>v. js_rem v 2)) (((\<lambda>G. kronecker G polar_F) ^^ (n - 1)) polar_F)"

text \<open>
  \<open>bhattacharyya(n, eps)\<close> halves \<open>n\<close> until it is 1. For \<open>n = 0\<close> and for an odd
  \<open>n > 1\<close> the halves never reach 1 and the recursion does not return: the value \<open>None\<close>.
\<close>

function bhattacharyya :: "nat \<Rightarrow> real \<Rightarrow> real list option" where
  "bhattacharyya n eps =
     (if n = 1 then Some [eps]
      else if n = 0 \<or> odd n then None
      else case bhattacharyya (n div 2) eps of
             None \<Rightarrow> None
           | Some half \<Rightarrow> Some (concat (map (\<lambda>z. [min (2 * z - z * z) 1, z * z]) half)))"
  by pat_completeness auto
termination
  by (relation "measure fst") auto

definition sc_f :: "real \<Rightarrow> real \<Rightarrow> real" where
  "sc_f a b = ((if a \<ge> 0 then 1 else - 1) * (if b \<ge> 0 then 1 else - 1)) * min \<bar>a\<bar> \<bar>b\<bar>"

definition sc_g :: "real \<Rightarrow> real \<Rightarrow> int \<Rightarrow> real" where
  "sc_g a b u = b + (1 - 2 * of_int u) * a"

text \<open>
  The recursive decoder \<open>decode(llr, offset, size)\<close> inside \<open>scDecode\<close>. It writes the
  array \<open>decoded\<close>, which is passed in and returned with the encoded partial sums. For
  \<open>size = 0\<close> the recursion does not end, and for an odd \<open>size > 1\<close> the half is not an
  array length (\<open>new Array\<close> raises): both are the value \<open>None\<close>.
\<close>

function sc_decode ::
  "nat set \<Rightarrow> real list \<Rightarrow> nat \<Rightarrow> nat \<Rightarrow> int list \<Rightarrow> (int list \<times> int list) option" where
  "sc_decode frozenBits llr offset sz dec =
     (if sz = 1 then
        let bit = (if offset \<in> frozenBits then 0 else if llr ! 0 < 0 then 1 else 0)
        in Some ([bit], dec[offset := bit])
      else if sz = 0 \<or> odd sz then None
      else
        let half = sz div 2;
            fLlr = map (\<lambda>i. sc_f (llr ! i) (llr ! (half + i))) [0..<half]
        in case sc_decode frozenBits fLlr offset half dec of
             None \<Rightarrow> None
           | Some (upperEnc, dec1) \<Rightarrow>
               let gLlr = map (\<lambda>i. sc_g (llr ! i) (llr ! (half + i)) (upperEnc ! i)) [0..<half]
               in case sc_decode frozenBits gLlr (offset + half) half dec1 of
                    None \<Rightarrow> None
                  | Some (lowerEnc, dec2) \<Rightarrow>
                      Some (map (\<lambda>i. upperEnc ! i XOR lowerEnc ! i) [0..<half]
                              @ map (\<lambda>i. lowerEnc ! i) [0..<half], dec2))"
  by pat_completeness auto
termination
  by (relation "measure (\<lambda>(frozenBits, llr, offset, sz, dec). sz)") auto

definition scDecode :: "int list \<Rightarrow> nat set \<Rightarrow> nat \<Rightarrow> int list option" where
  "scDecode rcv frozenBits N =
     (let initialLlr = map (\<lambda>bit. if bit = 0 then 2 else - 2) rcv
      in map_option snd (sc_decode frozenBits initialLlr 0 N (replicate N 0)))"

datatype channel_type = Frozen | Info

record polar_channel =
  ch_index :: nat
  ch_bhattacharyya :: real
  ch_type :: channel_type
  ch_reliability :: real

text \<open>
  \<open>channels\<close>: the indices sorted by their parameter with JavaScript's stable sort, the
  first \<open>K\<close> of them being the information set.
\<close>

definition channels :: "real list \<Rightarrow> nat \<Rightarrow> polar_channel list" where
  "channels params K =
     (let sorted = sort_key snd (zip [0..<length params] params);
          infoSet = set (map fst (take K sorted))
      in map (\<lambda>(i, z). \<lparr>ch_index = i, ch_bhattacharyya = z,
                         ch_type = (if i \<in> infoSet then Info else Frozen),
                         ch_reliability = 1 - z\<rparr>)
             (zip [0..<length params] params))"

definition frozenBits :: "polar_channel list \<Rightarrow> nat set" where
  "frozenBits chs = set (map ch_index (filter (\<lambda>c. ch_type c = Frozen) chs))"

definition infoBitIndices :: "polar_channel list \<Rightarrow> nat list" where
  "infoBitIndices chs = sort (map ch_index (filter (\<lambda>c. ch_type c = Info) chs))"

definition inputVector :: "nat \<Rightarrow> nat list \<Rightarrow> int list \<Rightarrow> int list" where
  "inputVector N infoIndices dat =
     foldl (\<lambda>u i. u[infoIndices ! i := dat ! i]) (replicate N 0)
       [0..<min (length infoIndices) (length dat)]"

definition polar_encoded :: "int list \<Rightarrow> int list list \<Rightarrow> nat \<Rightarrow> int list" where
  "polar_encoded u G N =
     map (\<lambda>j. js_rem (foldl (\<lambda>acc i. acc + u ! i * G ! i ! j) 0 [0..<N]) 2) [0..<N]"

definition polar_received :: "int list \<Rightarrow> nat list \<Rightarrow> int list" where
  "polar_received x errorPositions =
     foldl (\<lambda>x pos. if pos < length x then x[pos := 1 - x ! pos] else x) x errorPositions"

definition decodedInfoBits :: "int list \<Rightarrow> nat list \<Rightarrow> int list" where
  "decodedInfoBits dec infoIndices = map (\<lambda>i. dec ! i) infoIndices"

text \<open>
  The chain of the page from the parameters and the information bits to the decoded
  information bits, with the block length \<open>N = 2 ^ n\<close> and the error positions given.
\<close>

definition polar_roundtrip ::
  "nat \<Rightarrow> real list \<Rightarrow> nat \<Rightarrow> int list \<Rightarrow> nat list \<Rightarrow> int list option" where
  "polar_roundtrip n params K infoBits errorPositions =
     (let N = 2 ^ n;
          chs = channels params K;
          u = inputVector N (infoBitIndices chs) infoBits;
          x = polar_encoded u (generateG n) N;
          rcv = polar_received x errorPositions
      in map_option (\<lambda>dec. decodedInfoBits dec (infoBitIndices chs))
           (scDecode rcv (frozenBits chs) N))"

subsection \<open>The butterfly transform\<close>

text \<open>
  The transform that the decoder's recombination step describes: on a block of length
  \<open>2 ^ (n + 1)\<close>, transform both halves and return the XOR of the two followed by the
  lower one.
\<close>

primrec butterfly :: "nat \<Rightarrow> int list \<Rightarrow> int list" where
  "butterfly 0 u = u"
| "butterfly (Suc n) u =
     (let a = butterfly n (take (2 ^ n) u); b = butterfly n (drop (2 ^ n) u)
      in map2 (XOR) a b @ b)"

lemma bit_xor_cases:
  "a \<in> {0, 1::int} \<Longrightarrow> b \<in> {0, 1} \<Longrightarrow> a XOR b \<in> {0, 1}"
  by auto

lemma length_butterfly: "length u = 2 ^ n \<Longrightarrow> length (butterfly n u) = 2 ^ n"
  by (induction n arbitrary: u) (simp_all add: Let_def)

lemma butterfly_bits:
  "length u = 2 ^ n \<Longrightarrow> set u \<subseteq> {0, 1} \<Longrightarrow> set (butterfly n u) \<subseteq> {0, 1}"
proof (induction n arbitrary: u)
  case 0
  then show ?case by simp
next
  case (Suc n)
  let ?a = "butterfly n (take (2 ^ n) u)" and ?b = "butterfly n (drop (2 ^ n) u)"
  from Suc.prems have la: "length (take (2 ^ n) u) = 2 ^ n" and lb: "length (drop (2 ^ n) u) = 2 ^ n"
    by simp_all
  from Suc.prems(2) have "set (take (2 ^ n) u) \<subseteq> {0, 1}" "set (drop (2 ^ n) u) \<subseteq> {0, 1}"
    using set_take_subset [of "2 ^ n" u] set_drop_subset [of "2 ^ n" u] by blast+
  with Suc.IH la lb have a: "set ?a \<subseteq> {0, 1}" and b: "set ?b \<subseteq> {0, 1}" by blast+
  have "x XOR y \<in> {0, 1}" if "(x, y) \<in> set (zip ?a ?b)" for x y
  proof -
    from that have "x \<in> set ?a" "y \<in> set ?b" by (auto dest: set_zip_leftD set_zip_rightD)
    with a b show ?thesis using bit_xor_cases by blast
  qed
  then have "set (map2 (XOR) ?a ?b) \<subseteq> {0, 1}" by auto
  with b show ?case by (simp add: Let_def)
qed

lemma butterfly_nth_upper:
  assumes "length u = 2 ^ Suc n" and "i < 2 ^ n"
  shows "butterfly (Suc n) u ! i
         = butterfly n (take (2 ^ n) u) ! i XOR butterfly n (drop (2 ^ n) u) ! i"
proof -
  from assms have "length (butterfly n (take (2 ^ n) u)) = 2 ^ n"
    "length (butterfly n (drop (2 ^ n) u)) = 2 ^ n"
    by (simp_all add: length_butterfly)
  with assms(2) show ?thesis by (simp add: Let_def nth_append)
qed

lemma butterfly_nth_lower:
  assumes "length u = 2 ^ Suc n" and "i < 2 ^ n"
  shows "butterfly (Suc n) u ! (2 ^ n + i) = butterfly n (drop (2 ^ n) u) ! i"
proof -
  from assms have "length (butterfly n (take (2 ^ n) u)) = 2 ^ n"
    "length (butterfly n (drop (2 ^ n) u)) = 2 ^ n"
    by (simp_all add: length_butterfly)
  then show ?thesis by (simp add: Let_def nth_append)
qed

subsection \<open>The decoder on a noiseless block\<close>

text \<open>An LLR agrees with a bit when it is non-zero and negative exactly for the bit 1.\<close>

definition llr_agrees :: "real \<Rightarrow> int \<Rightarrow> bool" where
  "llr_agrees l b = (l \<noteq> 0 \<and> (l < 0) = (b = 1))"

lemma sc_f_agrees:
  assumes "llr_agrees a (x XOR y)" and "llr_agrees b y" and "x \<in> {0, 1}" and "y \<in> {0, 1}"
  shows "llr_agrees (sc_f a b) x"
  using assms by (auto simp: llr_agrees_def sc_f_def min_def abs_if split: if_splits)

lemma sc_g_agrees:
  assumes "llr_agrees a (x XOR y)" and "llr_agrees b y" and "x \<in> {0, 1}" and "y \<in> {0, 1}"
  shows "llr_agrees (sc_g a b x) y"
  using assms by (auto simp: llr_agrees_def sc_g_def split: if_splits)

lemma sc_decode_base:
  "sc_decode fz llr offset (Suc 0) dec =
     Some ([if offset \<in> fz then 0 else if llr ! 0 < 0 then 1 else 0],
           dec[offset := (if offset \<in> fz then 0 else if llr ! 0 < 0 then 1 else 0)])"
  by (subst sc_decode.simps) (simp add: Let_def)

lemma sc_decode_step:
  assumes "0 < n"
  shows "sc_decode fz llr offset (2 * n) dec =
     (let fLlr = map (\<lambda>i. sc_f (llr ! i) (llr ! (n + i))) [0..<n]
      in case sc_decode fz fLlr offset n dec of
           None \<Rightarrow> None
         | Some (upperEnc, dec1) \<Rightarrow>
             let gLlr = map (\<lambda>i. sc_g (llr ! i) (llr ! (n + i)) (upperEnc ! i)) [0..<n]
             in case sc_decode fz gLlr (offset + n) n dec1 of
                  None \<Rightarrow> None
                | Some (lowerEnc, dec2) \<Rightarrow>
                    Some (map (\<lambda>i. upperEnc ! i XOR lowerEnc ! i) [0..<n]
                            @ map (\<lambda>i. lowerEnc ! i) [0..<n], dec2))"
proof -
  from assms have "2 * n \<noteq> 1" "2 * n \<noteq> 0" "\<not> odd (2 * n)" "2 * n div 2 = n" by simp_all
  then show ?thesis by (subst sc_decode.simps) (simp add: Let_def)
qed

lemma sc_decode_noiseless:
  assumes "length u = 2 ^ n" and "set u \<subseteq> {0, 1}" and "length llr = 2 ^ n"
    and "\<forall>i < 2 ^ n. llr_agrees (llr ! i) (butterfly n u ! i)"
    and "\<forall>i < 2 ^ n. offset + i \<in> fz \<longrightarrow> u ! i = 0"
    and "offset + 2 ^ n \<le> length dec"
  shows "sc_decode fz llr offset (2 ^ n) dec
         = Some (butterfly n u, take offset dec @ u @ drop (offset + 2 ^ n) dec)"
  using assms
proof (induction n arbitrary: u llr offset dec)
  case 0
  then obtain b where u: "u = [b]" by (cases u) auto
  with "0.prems" have b: "b = 0 \<or> b = 1" by auto
  from "0.prems"(4) u have ag: "llr_agrees (llr ! 0) b" by simp
  from "0.prems"(5) u have fr: "offset \<in> fz \<longrightarrow> b = 0" by simp
  from ag fr b have bit: "(if offset \<in> fz then 0 else if llr ! 0 < 0 then 1 else 0) = b"
    by (auto simp: llr_agrees_def)
  from "0.prems"(6) have "offset < length dec" by simp
  then have "dec[offset := b] = take offset dec @ [b] @ drop (offset + 1) dec"
    by (simp add: upd_conv_take_nth_drop)
  with bit u show ?case by (simp add: sc_decode_base)
next
  case (Suc n)
  let ?h = "2 ^ n :: nat"
  let ?u1 = "take ?h u" and ?u2 = "drop ?h u"
  let ?x1 = "butterfly n ?u1" and ?x2 = "butterfly n ?u2"
  let ?fLlr = "map (\<lambda>i. sc_f (llr ! i) (llr ! (?h + i))) [0..<?h]"
  let ?gLlr = "map (\<lambda>i. sc_g (llr ! i) (llr ! (?h + i)) (?x1 ! i)) [0..<?h]"
  let ?dec1 = "take offset dec @ ?u1 @ drop (offset + ?h) dec"
  from Suc.prems(1) have l1: "length ?u1 = ?h" and l2: "length ?u2 = ?h" by simp_all
  from Suc.prems(2) have b1: "set ?u1 \<subseteq> {0, 1}" and b2: "set ?u2 \<subseteq> {0, 1}"
    using set_take_subset [of ?h u] set_drop_subset [of ?h u] by blast+
  have lx1: "length ?x1 = ?h" and lx2: "length ?x2 = ?h"
    using l1 l2 by (simp_all add: length_butterfly)
  have x1b: "?x1 ! i \<in> {0, 1}" if "i < ?h" for i
  proof -
    from that lx1 have "?x1 ! i \<in> set ?x1" by simp
    with butterfly_bits [OF l1 b1] show ?thesis by blast
  qed
  have x2b: "?x2 ! i \<in> {0, 1}" if "i < ?h" for i
  proof -
    from that lx2 have "?x2 ! i \<in> set ?x2" by simp
    with butterfly_bits [OF l2 b2] show ?thesis by blast
  qed
  have up: "llr_agrees (llr ! i) (?x1 ! i XOR ?x2 ! i)" if "i < ?h" for i
  proof -
    from that have "i < 2 ^ Suc n" by simp
    with Suc.prems(4) have "llr_agrees (llr ! i) (butterfly (Suc n) u ! i)" by blast
    with that show ?thesis by (simp only: butterfly_nth_upper [OF Suc.prems(1) that])
  qed
  have lo: "llr_agrees (llr ! (?h + i)) (?x2 ! i)" if "i < ?h" for i
  proof -
    from that have "?h + i < 2 ^ Suc n" by simp
    with Suc.prems(4) have "llr_agrees (llr ! (?h + i)) (butterfly (Suc n) u ! (?h + i))"
      by blast
    with that show ?thesis by (simp only: butterfly_nth_lower [OF Suc.prems(1) that])
  qed
  have f_ok: "\<forall>i < ?h. llr_agrees (?fLlr ! i) (?x1 ! i)"
  proof (intro allI impI)
    fix i assume i: "i < ?h"
    from sc_f_agrees [OF up [OF i] lo [OF i] x1b [OF i] x2b [OF i]] i
    show "llr_agrees (?fLlr ! i) (?x1 ! i)" by simp
  qed
  have g_ok: "\<forall>i < ?h. llr_agrees (?gLlr ! i) (?x2 ! i)"
  proof (intro allI impI)
    fix i assume i: "i < ?h"
    from sc_g_agrees [OF up [OF i] lo [OF i] x1b [OF i] x2b [OF i]] i
    show "llr_agrees (?gLlr ! i) (?x2 ! i)" by simp
  qed
  have fr1: "\<forall>i < ?h. offset + i \<in> fz \<longrightarrow> ?u1 ! i = 0"
    using Suc.prems(5) by simp
  have fr2: "\<forall>i < ?h. (offset + ?h) + i \<in> fz \<longrightarrow> ?u2 ! i = 0"
  proof (intro allI impI)
    fix i assume i: "i < ?h" and "(offset + ?h) + i \<in> fz"
    then have "offset + (?h + i) \<in> fz" by (simp add: add.assoc)
    moreover from i have "?h + i < 2 ^ Suc n" by simp
    ultimately have "u ! (?h + i) = 0" using Suc.prems(5) by blast
    with Suc.prems(1) i show "?u2 ! i = 0" by simp
  qed
  from Suc.prems(6) have d1: "offset + ?h \<le> length dec" by simp
  have first: "sc_decode fz ?fLlr offset ?h dec = Some (?x1, ?dec1)"
    by (rule Suc.IH [OF l1 b1 _ f_ok fr1 d1]) simp
  from Suc.prems(6) l1 have ld1: "length ?dec1 = length dec" by simp
  with Suc.prems(6) have d2: "(offset + ?h) + ?h \<le> length ?dec1" by simp
  have second: "sc_decode fz ?gLlr (offset + ?h) ?h ?dec1
      = Some (?x2, take (offset + ?h) ?dec1 @ ?u2 @ drop ((offset + ?h) + ?h) ?dec1)"
    by (rule Suc.IH [OF l2 b2 _ g_ok fr2 d2]) simp
  from Suc.prems(6) l1 have t: "take (offset + ?h) ?dec1 = take offset dec @ ?u1"
    by simp
  have idx: "2 ^ n + (offset + 2 ^ n) = offset + 2 * 2 ^ n" by simp
  from Suc.prems(6) l1 have d: "drop ((offset + ?h) + ?h) ?dec1 = drop (offset + 2 ^ Suc n) dec"
    by (simp add: idx)
  have comb: "map (\<lambda>i. ?x1 ! i XOR ?x2 ! i) [0..<?h] @ map (\<lambda>i. ?x2 ! i) [0..<?h]
      = butterfly (Suc n) u"
  proof -
    have "map (\<lambda>i. ?x1 ! i XOR ?x2 ! i) [0..<?h] = map2 (XOR) ?x1 ?x2"
      using lx1 lx2 by (intro nth_equalityI) simp_all
    moreover have "map (\<lambda>i. ?x2 ! i) [0..<?h] = ?x2"
      using lx2 by (intro nth_equalityI) simp_all
    ultimately show ?thesis by (simp add: Let_def)
  qed
  have "(2::nat) ^ Suc n = 2 * ?h" by simp
  moreover have "0 < ?h" by simp
  ultimately have "sc_decode fz llr offset (2 ^ Suc n) dec
      = Some (butterfly (Suc n) u, take (offset + ?h) ?dec1 @ ?u2 @ drop ((offset + ?h) + ?h) ?dec1)"
    using first second comb by (simp only: sc_decode_step Let_def option.case prod.case)
  also have "take (offset + ?h) ?dec1 @ ?u2 @ drop ((offset + ?h) + ?h) ?dec1
      = take offset dec @ u @ drop (offset + 2 ^ Suc n) dec"
    unfolding t d by simp
  finally show ?case .
qed

subsection \<open>The generator matrix\<close>

text \<open>
  The entry \<open>(i, j)\<close> of the \<open>n\<close>-fold Kronecker power of \<open>F\<close>, by the binary digits of
  \<open>i\<close> and \<open>j\<close> from the lowest up, which is the order in which \<open>generateG\<close> builds it.
\<close>

primrec gen_entry :: "nat \<Rightarrow> nat \<Rightarrow> nat \<Rightarrow> int" where
  "gen_entry 0 i j = 1"
| "gen_entry (Suc n) i j = gen_entry n (i div 2) (j div 2) * polar_F ! (i mod 2) ! (j mod 2)"

lemma polar_F_entry:
  "a < 2 \<Longrightarrow> b < 2 \<Longrightarrow> polar_F ! a ! b = (if a = 0 \<and> b = 1 then 0 else 1)"
  by (cases a; cases b) (auto simp: polar_F_def less_Suc_eq numeral_2_eq_2)

lemma gen_entry_bit: "gen_entry n i j \<in> {0, 1}"
proof (induction n arbitrary: i j)
  case 0
  then show ?case by simp
next
  case (Suc n)
  have "polar_F ! (i mod 2) ! (j mod 2) \<in> {0, 1}"
    by (simp add: polar_F_entry)
  with Suc [of "i div 2" "j div 2"] show ?case by auto
qed

lemma kronecker_polar_F:
  assumes "length G = m" and "length (G ! 0) = m'"
  shows "kronecker G polar_F =
      map (\<lambda>i. map (\<lambda>j. G ! (i div 2) ! (j div 2) * polar_F ! (i mod 2) ! (j mod 2))
                   [0..<m' * 2])
          [0..<m * 2]"
proof -
  have "length polar_F = 2" "length (polar_F ! 0) = 2"
    by (simp_all add: polar_F_def)
  with assms show ?thesis by (simp add: kronecker_def Let_def)
qed

lemma kronecker_power:
  "length (((\<lambda>G. kronecker G polar_F) ^^ k) polar_F) = 2 ^ Suc k
   \<and> (\<forall>i < 2 ^ Suc k. length (((\<lambda>G. kronecker G polar_F) ^^ k) polar_F ! i) = 2 ^ Suc k)
   \<and> (\<forall>i < 2 ^ Suc k. \<forall>j < 2 ^ Suc k.
        ((\<lambda>G. kronecker G polar_F) ^^ k) polar_F ! i ! j = gen_entry (Suc k) i j)"
proof (induction k)
  case 0
  have "polar_F ! i ! j = gen_entry (Suc 0) i j" if "i < 2" "j < 2" for i j
    using that by simp
  then show ?case by (simp add: polar_F_def less_Suc_eq numeral_2_eq_2)
next
  case (Suc k)
  let ?G = "((\<lambda>G. kronecker G polar_F) ^^ k) polar_F"
  from Suc have len: "length ?G = 2 ^ Suc k"
    and row: "\<And>i. i < 2 ^ Suc k \<Longrightarrow> length (?G ! i) = 2 ^ Suc k"
    and ent: "\<And>i j. i < 2 ^ Suc k \<Longrightarrow> j < 2 ^ Suc k \<Longrightarrow> ?G ! i ! j = gen_entry (Suc k) i j"
    by blast+
  have row0: "length (?G ! 0) = 2 ^ Suc k" by (rule row) simp
  have kr: "kronecker ?G polar_F =
      map (\<lambda>i. map (\<lambda>j. ?G ! (i div 2) ! (j div 2) * polar_F ! (i mod 2) ! (j mod 2))
                   [0..<2 ^ Suc k * 2])
          [0..<2 ^ Suc k * 2]"
    by (rule kronecker_polar_F [OF len row0])
  have sz: "(2::nat) ^ Suc (Suc k) = 2 ^ Suc k * 2" by simp
  have "kronecker ?G polar_F ! i ! j = gen_entry (Suc (Suc k)) i j"
    if "i < 2 ^ Suc (Suc k)" "j < 2 ^ Suc (Suc k)" for i j
  proof -
    from that have "i div 2 < 2 ^ Suc k" "j div 2 < 2 ^ Suc k" by auto
    then have "?G ! (i div 2) ! (j div 2) = gen_entry (Suc k) (i div 2) (j div 2)"
      by (rule ent)
    moreover from that have "i < 2 ^ Suc k * 2" "j < 2 ^ Suc k * 2" by simp_all
    ultimately show ?thesis unfolding kr by simp
  qed
  moreover have "length (kronecker ?G polar_F) = 2 ^ Suc (Suc k)"
    unfolding kr by simp
  moreover have "length (kronecker ?G polar_F ! i) = 2 ^ Suc (Suc k)"
    if "i < 2 ^ Suc (Suc k)" for i
  proof -
    from that have "i < 2 ^ Suc k * 2" by simp
    then show ?thesis unfolding kr by simp
  qed
  ultimately show ?case by simp
qed

lemma js_rem_bit: "b \<in> {0, 1} \<Longrightarrow> js_rem b 2 = b"
  by (auto simp: js_rem_def)

lemma generateG_entry:
  assumes "i < 2 ^ n" and "j < 2 ^ n"
  shows "generateG n ! i ! j = gen_entry n i j"
proof (cases n)
  case 0
  with assms show ?thesis by (simp add: generateG_def polar_F_def js_rem_def)
next
  case (Suc k)
  let ?G = "((\<lambda>G. kronecker G polar_F) ^^ k) polar_F"
  from kronecker_power [of k] assms Suc
  have "i < length ?G" "j < length (?G ! i)" "?G ! i ! j = gen_entry n i j"
    by simp_all
  then show ?thesis using Suc gen_entry_bit [of n i j] by (simp add: generateG_def js_rem_bit)
qed

text \<open>The same entry, split at the highest binary digit.\<close>

lemma gen_entry_high:
  assumes "i < 2 ^ n" and "j < 2 ^ n" and "a < 2" and "b < 2"
  shows "gen_entry (Suc n) (a * 2 ^ n + i) (b * 2 ^ n + j) = polar_F ! a ! b * gen_entry n i j"
  using assms(1,2)
proof (induction n arbitrary: i j)
  case 0
  with assms(3,4) show ?case by simp
next
  case (Suc n)
  have halve: "(m * 2 ^ Suc n + k) div 2 = m * 2 ^ n + k div 2"
    "(m * 2 ^ Suc n + k) mod 2 = k mod 2" for m k :: nat
  proof -
    have e: "m * 2 ^ Suc n + k = 2 * (m * 2 ^ n) + k" by simp
    show "(m * 2 ^ Suc n + k) div 2 = m * 2 ^ n + k div 2"
      unfolding e by (rule div_mult_self4) simp
    show "(m * 2 ^ Suc n + k) mod 2 = k mod 2"
      unfolding e by (rule mod_mult_self4)
  qed
  note da = halve(1) [of a i] and ma = halve(2) [of a i]
    and db = halve(1) [of b j] and mb = halve(2) [of b j]
  from Suc.prems have "i div 2 < 2 ^ n" "j div 2 < 2 ^ n" by auto
  then have "gen_entry (Suc n) (a * 2 ^ n + i div 2) (b * 2 ^ n + j div 2)
      = polar_F ! a ! b * gen_entry n (i div 2) (j div 2)"
    by (rule Suc.IH)
  then show ?case
    unfolding gen_entry.simps(2) [of "Suc n"] da ma db mb
    by (simp add: mult.assoc)
qed

subsection \<open>The encoder is the butterfly transform\<close>

definition colsum :: "nat \<Rightarrow> int list \<Rightarrow> nat \<Rightarrow> int" where
  "colsum n u j = (\<Sum>i < 2 ^ n. u ! i * gen_entry n i j)"

lemma foldl_add_sum:
  "foldl (\<lambda>acc i. acc + f i) a [0..<N] = a + (\<Sum>i < N. f i)"
  by (induction N) (simp_all add: add.assoc)

lemma polar_encoded_colsum:
  "polar_encoded u (generateG n) (2 ^ n) = map (\<lambda>j. js_rem (colsum n u j) 2) [0..<2 ^ n]"
proof -
  have "(\<Sum>i < 2 ^ n. u ! i * generateG n ! i ! j) = colsum n u j" if "j < 2 ^ n" for j
    unfolding colsum_def using that by (intro sum.cong) (simp_all add: generateG_entry)
  then show ?thesis
    by (simp add: polar_encoded_def foldl_add_sum)
qed

lemma sum_split_shift:
  fixes f :: "nat \<Rightarrow> int"
  shows "(\<Sum>i < a + b. f i) = (\<Sum>i < a. f i) + (\<Sum>i < b. f (a + i))"
  by (induction b) (simp_all add: add.assoc [symmetric])

lemma sum_split_halves:
  fixes f :: "nat \<Rightarrow> int"
  shows "(\<Sum>i < 2 ^ Suc n. f i) = (\<Sum>i < 2 ^ n. f i) + (\<Sum>i < 2 ^ n. f (2 ^ n + i))"
proof -
  have "(\<Sum>i < 2 ^ Suc n. f i) = (\<Sum>i < 2 ^ n + 2 ^ n. f i)" by (simp add: mult_2)
  also have "\<dots> = (\<Sum>i < 2 ^ n. f i) + (\<Sum>i < 2 ^ n. f (2 ^ n + i))"
    by (rule sum_split_shift)
  finally show ?thesis .
qed

lemma colsum_upper:
  assumes "length u = 2 ^ Suc n" and "j < 2 ^ n"
  shows "colsum (Suc n) u j = colsum n (take (2 ^ n) u) j + colsum n (drop (2 ^ n) u) j"
proof -
  have lo: "u ! i * gen_entry (Suc n) i j = take (2 ^ n) u ! i * gen_entry n i j"
    if "i < 2 ^ n" for i
    using gen_entry_high [OF that assms(2), of 0 0] that
    by (simp add: polar_F_entry del: gen_entry.simps)
  have hi: "u ! (2 ^ n + i) * gen_entry (Suc n) (2 ^ n + i) j
      = drop (2 ^ n) u ! i * gen_entry n i j" if "i < 2 ^ n" for i
    using gen_entry_high [OF that assms(2), of 1 0] that assms(1)
    by (simp add: polar_F_entry del: gen_entry.simps)
  have 1: "(\<Sum>i < 2 ^ n. u ! i * gen_entry (Suc n) i j)
      = (\<Sum>i < 2 ^ n. take (2 ^ n) u ! i * gen_entry n i j)"
    by (rule sum.cong) (simp_all only: lo lessThan_iff)
  have 2: "(\<Sum>i < 2 ^ n. u ! (2 ^ n + i) * gen_entry (Suc n) (2 ^ n + i) j)
      = (\<Sum>i < 2 ^ n. drop (2 ^ n) u ! i * gen_entry n i j)"
    by (rule sum.cong) (simp_all only: hi lessThan_iff)
  show ?thesis
    unfolding colsum_def sum_split_halves 1 2 by (rule refl)
qed

lemma colsum_lower:
  assumes "length u = 2 ^ Suc n" and "j < 2 ^ n"
  shows "colsum (Suc n) u (2 ^ n + j) = colsum n (drop (2 ^ n) u) j"
proof -
  have lo: "u ! i * gen_entry (Suc n) i (2 ^ n + j) = 0" if "i < 2 ^ n" for i
    using gen_entry_high [OF that assms(2), of 0 1] that
    by (simp add: polar_F_entry del: gen_entry.simps)
  have hi: "u ! (2 ^ n + i) * gen_entry (Suc n) (2 ^ n + i) (2 ^ n + j)
      = drop (2 ^ n) u ! i * gen_entry n i j" if "i < 2 ^ n" for i
    using gen_entry_high [OF that assms(2), of 1 1] that assms(1)
    by (simp add: polar_F_entry del: gen_entry.simps)
  have 1: "(\<Sum>i < 2 ^ n. u ! i * gen_entry (Suc n) i (2 ^ n + j)) = (\<Sum>i < (2::nat) ^ n. 0)"
    by (rule sum.cong) (simp_all only: lo lessThan_iff)
  have 2: "(\<Sum>i < 2 ^ n. u ! (2 ^ n + i) * gen_entry (Suc n) (2 ^ n + i) (2 ^ n + j))
      = (\<Sum>i < 2 ^ n. drop (2 ^ n) u ! i * gen_entry n i j)"
    by (rule sum.cong) (simp_all only: hi lessThan_iff)
  show ?thesis
    unfolding colsum_def sum_split_halves 1 2 by simp
qed

lemma colsum_nonneg:
  assumes "length u = 2 ^ n" and "set u \<subseteq> {0, 1}"
  shows "0 \<le> colsum n u j"
  unfolding colsum_def
proof (rule sum_nonneg)
  fix i :: nat assume "i \<in> {..<2 ^ n}"
  with assms(1) have "u ! i \<in> set u" by simp
  with assms(2) have "u ! i \<in> {0, 1}" by blast
  with gen_entry_bit [of n i j] show "0 \<le> u ! i * gen_entry n i j" by auto
qed

lemma mod2_add_xor: "(a + b) mod 2 = (a mod 2) XOR (b mod 2)" for a b :: int
proof -
  have "a mod 2 = 0 \<or> a mod 2 = 1" "b mod 2 = 0 \<or> b mod 2 = 1" by auto
  moreover have "(a + b) mod 2 = (a mod 2 + b mod 2) mod 2" by (simp add: mod_add_eq)
  ultimately show ?thesis by auto
qed

lemma colsum_butterfly:
  assumes "length u = 2 ^ n" and "set u \<subseteq> {0, 1}"
  shows "map (\<lambda>j. colsum n u j mod 2) [0..<2 ^ n] = butterfly n u"
  using assms
proof (induction n arbitrary: u)
  case 0
  then obtain b where "u = [b]" "b = 0 \<or> b = 1" by (cases u) auto
  then show ?case by (auto simp: colsum_def)
next
  case (Suc n)
  let ?u1 = "take (2 ^ n) u" and ?u2 = "drop (2 ^ n) u"
  from Suc.prems(1) have l1: "length ?u1 = 2 ^ n" and l2: "length ?u2 = 2 ^ n" by simp_all
  from Suc.prems(2) have b1: "set ?u1 \<subseteq> {0, 1}" and b2: "set ?u2 \<subseteq> {0, 1}"
    using set_take_subset [of "2 ^ n" u] set_drop_subset [of "2 ^ n" u] by blast+
  note ih1 = Suc.IH [OF l1 b1] and ih2 = Suc.IH [OF l2 b2]
  have n1: "butterfly n ?u1 ! j = colsum n ?u1 j mod 2" if "j < 2 ^ n" for j
    using that by (simp add: ih1 [symmetric])
  have n2: "butterfly n ?u2 ! j = colsum n ?u2 j mod 2" if "j < 2 ^ n" for j
    using that by (simp add: ih2 [symmetric])
  show ?case
  proof (rule nth_equalityI)
    show "length (map (\<lambda>j. colsum (Suc n) u j mod 2) [0..<2 ^ Suc n])
        = length (butterfly (Suc n) u)"
      using Suc.prems(1) by (simp add: length_butterfly del: butterfly.simps)
  next
    fix j assume "j < length (map (\<lambda>j. colsum (Suc n) u j mod 2) [0..<2 ^ Suc n])"
    then have j: "j < 2 ^ Suc n" by simp
    show "map (\<lambda>j. colsum (Suc n) u j mod 2) [0..<2 ^ Suc n] ! j = butterfly (Suc n) u ! j"
    proof (cases "j < 2 ^ n")
      case True
      from j True show ?thesis
        by (simp add: butterfly_nth_upper [OF Suc.prems(1) True] n1 n2
            colsum_upper [OF Suc.prems(1) True] mod2_add_xor del: butterfly.simps)
    next
      case False
      with j obtain j' where j': "j = 2 ^ n + j'" "j' < 2 ^ n"
        by (metis add_diff_inverse_nat add_less_cancel_left mult_2 power_Suc)
      from j show ?thesis unfolding j'(1)
        by (simp add: butterfly_nth_lower [OF Suc.prems(1) j'(2)] n2 [OF j'(2)]
            colsum_lower [OF Suc.prems(1) j'(2)] del: butterfly.simps)
    qed
  qed
qed

lemma polar_encoded_butterfly:
  assumes "length u = 2 ^ n" and "set u \<subseteq> {0, 1}"
  shows "polar_encoded u (generateG n) (2 ^ n) = butterfly n u"
proof -
  have "js_rem (colsum n u j) 2 = colsum n u j mod 2" for j
    using colsum_nonneg [OF assms, of j] by (simp add: js_rem_nonneg)
  then show ?thesis
    by (simp add: polar_encoded_colsum colsum_butterfly [OF assms])
qed

subsection \<open>The information set\<close>

lemma map_filter_commute: "map f (filter (\<lambda>p. P (f p)) xs) = filter P (map f xs)"
  by (induction xs) auto

lemma channels_info_indices:
  "map ch_index (filter (\<lambda>c. ch_type c = Info) (channels params K))
   = filter (\<lambda>i. i \<in> set (map fst (take K (sort_key snd (zip [0..<length params] params)))))
       [0..<length params]"
proof -
  let ?zs = "zip [0..<length params] params"
  let ?A = "set (map fst (take K (sort_key snd ?zs)))"
  have "map ch_index (filter (\<lambda>c. ch_type c = Info) (channels params K))
      = map fst (filter (\<lambda>p. fst p \<in> ?A) ?zs)"
    by (simp add: channels_def Let_def filter_map comp_def case_prod_beta)
  also have "\<dots> = filter (\<lambda>i. i \<in> ?A) (map fst ?zs)"
    by (rule map_filter_commute)
  also have "map fst ?zs = [0..<length params]" by simp
  finally show ?thesis .
qed

lemma channels_frozen_indices:
  "map ch_index (filter (\<lambda>c. ch_type c = Frozen) (channels params K))
   = filter (\<lambda>i. i \<notin> set (map fst (take K (sort_key snd (zip [0..<length params] params)))))
       [0..<length params]"
proof -
  let ?zs = "zip [0..<length params] params"
  let ?A = "set (map fst (take K (sort_key snd ?zs)))"
  have "map ch_index (filter (\<lambda>c. ch_type c = Frozen) (channels params K))
      = map fst (filter (\<lambda>p. fst p \<notin> ?A) ?zs)"
    by (simp add: channels_def Let_def filter_map comp_def case_prod_beta)
  also have "\<dots> = filter (\<lambda>i. i \<notin> ?A) (map fst ?zs)"
    by (rule map_filter_commute)
  also have "map fst ?zs = [0..<length params]" by simp
  finally show ?thesis .
qed

lemma info_set_card:
  assumes "K \<le> length params"
  shows "card (set (map fst (take K (sort_key snd (zip [0..<length params] params))))) = K"
    and "set (map fst (take K (sort_key snd (zip [0..<length params] params))))
         \<subseteq> {0..<length params}"
proof -
  let ?zs = "zip [0..<length params] params"
  let ?s = "sort_key snd ?zs"
  have fz: "map fst ?zs = [0..<length params]" by simp
  then have "distinct (map fst ?zs)" by simp
  then have "distinct ?zs \<and> inj_on fst (set ?zs)"
    by (simp only: distinct_map)
  then have dz: "distinct ?zs" and inj: "inj_on fst (set ?zs)"
    by blast+
  then have "distinct (map fst ?s)" by (simp add: distinct_map)
  then have "distinct (take K (map fst ?s))" by (rule distinct_take)
  then have "card (set (take K (map fst ?s))) = length (take K (map fst ?s))"
    by (rule distinct_card)
  with assms show "card (set (map fst (take K ?s))) = K" by (simp add: take_map)
  have "set (map fst (take K ?s)) \<subseteq> set (map fst ?s)"
    using set_take_subset [of K ?s] by auto
  also have "set (map fst ?s) = set (map fst ?zs)" by (simp only: set_map set_sort)
  also have "\<dots> = set [0..<length params]" by (simp only: fz)
  also have "\<dots> = {0..<length params}" by simp
  finally show "set (map fst (take K ?s)) \<subseteq> {0..<length params}" .
qed

lemma infoBitIndices_props:
  assumes "K \<le> length params"
  shows "distinct (infoBitIndices (channels params K))"
    and "length (infoBitIndices (channels params K)) = K"
    and "set (infoBitIndices (channels params K)) \<subseteq> {0..<length params}"
    and "frozenBits (channels params K)
         = {0..<length params} - set (infoBitIndices (channels params K))"
proof -
  let ?A = "set (map fst (take K (sort_key snd (zip [0..<length params] params))))"
  let ?idx = "infoBitIndices (channels params K)"
  have idx: "?idx = sort (filter (\<lambda>i. i \<in> ?A) [0..<length params])"
    by (simp only: infoBitIndices_def channels_info_indices)
  show d: "distinct ?idx" unfolding idx by simp
  have s: "set ?idx = ?A"
    unfolding idx using info_set_card(2) [OF assms] by auto
  from d have "length ?idx = card (set ?idx)" by (simp add: distinct_card)
  with s info_set_card(1) [OF assms] show "length ?idx = K" by simp
  from s info_set_card(2) [OF assms] show "set ?idx \<subseteq> {0..<length params}" by simp
  have "frozenBits (channels params K) = set (filter (\<lambda>i. i \<notin> ?A) [0..<length params])"
    by (simp only: frozenBits_def channels_frozen_indices)
  also have "\<dots> = {0..<length params} - ?A" by auto
  finally show "frozenBits (channels params K) = {0..<length params} - set ?idx"
    using s by simp
qed

subsection \<open>The input vector\<close>

lemma inputVector_fold:
  assumes "distinct idx" and "m \<le> length idx"
  shows "length (foldl (\<lambda>u i. u[idx ! i := dat ! i]) u0 [0..<m]) = length u0
    \<and> (\<forall>i < m. idx ! i < length u0 \<longrightarrow>
          foldl (\<lambda>u i. u[idx ! i := dat ! i]) u0 [0..<m] ! (idx ! i) = dat ! i)
    \<and> (\<forall>k. k \<notin> set idx \<longrightarrow> foldl (\<lambda>u i. u[idx ! i := dat ! i]) u0 [0..<m] ! k = u0 ! k)"
  using assms(2)
proof (induction m)
  case 0
  then show ?case by simp
next
  case (Suc m)
  let ?r = "foldl (\<lambda>u i. u[idx ! i := dat ! i]) u0 [0..<m]"
  from Suc have ih: "length ?r = length u0"
    "\<And>i. i < m \<Longrightarrow> idx ! i < length u0 \<Longrightarrow> ?r ! (idx ! i) = dat ! i"
    "\<And>k. k \<notin> set idx \<Longrightarrow> ?r ! k = u0 ! k"
    by simp_all
  have step: "foldl (\<lambda>u i. u[idx ! i := dat ! i]) u0 [0..<Suc m] = ?r[idx ! m := dat ! m]"
    by simp
  have "(?r[idx ! m := dat ! m]) ! (idx ! i) = dat ! i"
    if "i < Suc m" "idx ! i < length u0" for i
  proof (cases "i = m")
    case True
    with that ih(1) show ?thesis by simp
  next
    case False
    with that have i: "i < m" by simp
    with Suc.prems assms(1) False have "idx ! i \<noteq> idx ! m"
      by (simp add: nth_eq_iff_index_eq)
    with ih(2) [OF i that(2)] show ?thesis by simp
  qed
  moreover have "(?r[idx ! m := dat ! m]) ! k = u0 ! k" if "k \<notin> set idx" for k
  proof -
    from Suc.prems have "idx ! m \<in> set idx" by simp
    with that have "k \<noteq> idx ! m" by auto
    with ih(3) [OF that] show ?thesis by simp
  qed
  ultimately show ?case unfolding step using ih(1) by simp
qed

lemma inputVector_props:
  assumes "distinct idx" and "length idx = length dat" and "set idx \<subseteq> {0..<N}"
    and "set dat \<subseteq> {0, 1}"
  shows "length (inputVector N idx dat) = N"
    and "map (\<lambda>i. inputVector N idx dat ! i) idx = dat"
    and "\<And>k. k \<notin> set idx \<Longrightarrow> k < N \<Longrightarrow> inputVector N idx dat ! k = 0"
    and "set (inputVector N idx dat) \<subseteq> {0, 1}"
proof -
  let ?u = "inputVector N idx dat"
  have u: "?u = foldl (\<lambda>u i. u[idx ! i := dat ! i]) (replicate N 0) [0..<length idx]"
    by (simp add: inputVector_def assms(2))
  from inputVector_fold [OF assms(1), of "length idx" dat "replicate N 0"]
  have len: "length ?u = N"
    and hit: "\<And>i. i < length idx \<Longrightarrow> idx ! i < N \<Longrightarrow> ?u ! (idx ! i) = dat ! i"
    and miss: "\<And>k. k \<notin> set idx \<Longrightarrow> ?u ! k = replicate N 0 ! k"
    unfolding u by simp_all
  show "length ?u = N" by (rule len)
  have inr: "idx ! i < N" if "i < length idx" for i
  proof -
    from nth_mem [OF that] assms(3) have "idx ! i \<in> {0..<N}" by blast
    then show ?thesis by simp
  qed
  show "map (\<lambda>i. ?u ! i) idx = dat"
    using assms(2) by (intro nth_equalityI) (simp_all add: hit inr)
  show z: "?u ! k = 0" if "k \<notin> set idx" "k < N" for k
    using miss [OF that(1)] that(2) by simp
  show "set ?u \<subseteq> {0, 1}"
  proof
    fix b assume "b \<in> set ?u"
    then obtain k where k: "k < N" "b = ?u ! k"
      using len by (auto simp: in_set_conv_nth)
    show "b \<in> {0, 1}"
    proof (cases "k \<in> set idx")
      case True
      then obtain i where i: "i < length idx" "idx ! i = k"
        by (auto simp: in_set_conv_nth)
      with hit [OF i(1)] k have "b = dat ! i" by simp
      moreover from i(1) assms(2) have "dat ! i \<in> set dat" by simp
      ultimately show ?thesis using assms(4) by blast
    next
      case False
      with z k show ?thesis by simp
    qed
  qed
qed

subsection \<open>The round trip\<close>

lemma bhattacharyya_power_of_two:
  "\<exists>zs. bhattacharyya (2 ^ n) eps = Some zs \<and> length zs = 2 ^ n"
proof (induction n)
  case 0
  show ?case by (subst bhattacharyya.simps) simp
next
  case (Suc n)
  then obtain half where half: "bhattacharyya (2 ^ n) eps = Some half" "length half = 2 ^ n"
    by blast
  have "(2::nat) ^ Suc n \<noteq> 1" "(2::nat) ^ Suc n \<noteq> 0" "\<not> odd ((2::nat) ^ Suc n)"
    "(2::nat) ^ Suc n div 2 = 2 ^ n"
    by simp_all
  then have "bhattacharyya (2 ^ Suc n) eps
      = Some (concat (map (\<lambda>z. [min (2 * z - z * z) 1, z * z]) half))"
    by (subst bhattacharyya.simps) (simp add: half del: bhattacharyya.simps)
  moreover have "length (concat (map (\<lambda>z. [min (2 * z - z * z) 1, z * z]) half)) = 2 ^ Suc n"
    using half(2) by (simp add: length_concat comp_def sum_list_triv)
  ultimately show ?case by simp
qed

lemma scDecode_noiseless:
  assumes "length u = 2 ^ n" and "set u \<subseteq> {0, 1}"
    and "\<forall>i < 2 ^ n. i \<in> fz \<longrightarrow> u ! i = 0"
  shows "scDecode (butterfly n u) fz (2 ^ n) = Some u"
proof -
  let ?x = "butterfly n u"
  let ?llr = "map (\<lambda>bit. if bit = 0 then 2 else - 2) ?x :: real list"
  have lx: "length ?x = 2 ^ n" by (rule length_butterfly [OF assms(1)])
  have ag: "\<forall>i < 2 ^ n. llr_agrees (?llr ! i) (?x ! i)"
  proof (intro allI impI)
    fix i :: nat assume i: "i < 2 ^ n"
    with lx have "?x ! i \<in> set ?x" by simp
    with butterfly_bits [OF assms(1,2)] have "?x ! i = 0 \<or> ?x ! i = 1" by blast
    with i lx show "llr_agrees (?llr ! i) (?x ! i)" by (auto simp: llr_agrees_def)
  qed
  have fr: "\<forall>i < 2 ^ n. 0 + i \<in> fz \<longrightarrow> u ! i = 0" using assms(3) by simp
  have "sc_decode fz ?llr 0 (2 ^ n) (replicate (2 ^ n) 0)
      = Some (?x, take 0 (replicate (2 ^ n) 0) @ u @ drop (0 + 2 ^ n) (replicate (2 ^ n) 0))"
    by (rule sc_decode_noiseless [OF assms(1,2) _ ag fr]) (simp_all add: lx)
  then show ?thesis by (simp add: scDecode_def)
qed

lemma polar_roundtrip_noiseless:
  assumes "length params = 2 ^ n" and "K \<le> 2 ^ n" and "length infoBits = K"
    and "set infoBits \<subseteq> {0, 1}"
  shows "polar_roundtrip n params K infoBits [] = Some infoBits"
proof -
  let ?chs = "channels params K"
  let ?idx = "infoBitIndices ?chs"
  let ?u = "inputVector (2 ^ n) ?idx infoBits"
  from assms(1,2) have K: "K \<le> length params" by simp
  note ip = infoBitIndices_props [OF K]
  from ip(2) assms(3) have li: "length ?idx = length infoBits" by simp
  from ip(3) assms(1) have si: "set ?idx \<subseteq> {0..<2 ^ n}" by simp
  note up = inputVector_props [OF ip(1) li si assms(4)]
  have fr: "\<forall>i < 2 ^ n. i \<in> frozenBits ?chs \<longrightarrow> ?u ! i = 0"
    using ip(4) up(3) by auto
  have "scDecode (polar_encoded ?u (generateG n) (2 ^ n)) (frozenBits ?chs) (2 ^ n) = Some ?u"
    unfolding polar_encoded_butterfly [OF up(1,4)]
    by (rule scDecode_noiseless [OF up(1,4) fr])
  then show ?thesis
    by (simp add: polar_roundtrip_def Let_def polar_received_def decodedInfoBits_def up(2))
qed

text \<open>
  Claim C3: for every block length \<open>N = 2 ^ n\<close>, every \<open>K\<close> with \<open>0 \<le> K \<le> N\<close>, every
  erasure probability used to pick the frozen set, and every \<open>K\<close>-bit information word,
  running \<open>scDecode\<close> on the uncorrupted codeword \<open>u G\<^sub>N\<close> (mod 2) and reading the decoded
  vector at the information indices in ascending order reproduces the information word.
  It holds for every list of \<open>N\<close> channel parameters, whatever their values and order,
  hence also for the parameters that floating-point arithmetic computes; and
  \<open>bhattacharyya\<close> returns such a list for every erasure probability.
\<close>

theorem C3_polar_zero_error_roundtrip:
  assumes "K \<le> 2 ^ n" and "length infoBits = K" and "set infoBits \<subseteq> {0, 1}"
  shows "(\<forall>params. length params = 2 ^ n \<longrightarrow>
            polar_roundtrip n params K infoBits [] = Some infoBits)
       \<and> (\<exists>zs. bhattacharyya (2 ^ n) eps = Some zs
              \<and> polar_roundtrip n zs K infoBits [] = Some infoBits)"
proof
  show all: "\<forall>params. length params = 2 ^ n \<longrightarrow>
      polar_roundtrip n params K infoBits [] = Some infoBits"
    using polar_roundtrip_noiseless [OF _ assms] by blast
  from bhattacharyya_power_of_two [of n eps]
  obtain zs where "bhattacharyya (2 ^ n) eps = Some zs" "length zs = 2 ^ n" by blast
  with all show "\<exists>zs. bhattacharyya (2 ^ n) eps = Some zs
      \<and> polar_roundtrip n zs K infoBits [] = Some infoBits"
    by blast
qed

theorem C3_polar_zero_error_roundtrip_witness:
  "polar_roundtrip 3
     [255 / 256, 225 / 256, 207 / 256, 81 / 256, 175 / 256, 49 / 256, 31 / 256, 1 / 256]
     4 [1, 0, 1, 1] [] = Some [1, 0, 1, 1]
   \<and> (\<exists>zs. bhattacharyya (2 ^ 3) (1 / 2) = Some zs
          \<and> polar_roundtrip 3 zs 4 [1, 0, 1, 1] [] = Some [1, 0, 1, 1])"
proof -
  have K: "(4::nat) \<le> 2 ^ 3" by simp
  have len: "length [1, 0, 1, 1 :: int] = 4" by simp
  have bits: "set [1, 0, 1, 1 :: int] \<subseteq> {0, 1}" by simp
  have params: "length [255 / 256, 225 / 256, 207 / 256, 81 / 256, 175 / 256, 49 / 256,
      31 / 256, 1 / 256 :: real] = 2 ^ 3"
    by simp
  note C = C3_polar_zero_error_roundtrip [OF K len bits, of "1 / 2"]
  from C [THEN conjunct1, THEN spec, THEN mp, OF params] C [THEN conjunct2]
  show ?thesis by (rule conjI)
qed


section \<open>Reed-Solomon codec over GF(2^8)\<close>

text \<open>
  The functions of \<open>reed-solomon.ts\<close> on arrays of numbers, as lists of integers. A
  result of a field operation is used in one of two ways: as an operand of \<open>^\<close>, which
  takes \<open>undefined\<close> as 0, or stored as it is, where it is the result for byte operands
  and so never \<open>undefined\<close> (\<open>gfMul_closed\<close>, \<open>gfDiv_closed\<close>). Both uses read it through
  \<open>js_int\<close>. The tables are read through their computed contents.
\<close>

declare gfExp_table [code]
declare gfLog_table [code]

definition js_int :: "int option \<Rightarrow> int" where
  "js_int v = (case v of Some n \<Rightarrow> n | None \<Rightarrow> 0)"

definition gmul :: "int \<Rightarrow> int \<Rightarrow> int" where
  "gmul a b = js_int (gfMul a b)"

definition ginv :: "int \<Rightarrow> int" where
  "ginv x = js_int (gfInverse x)"

definition gexp :: "int \<Rightarrow> int" where
  "gexp i = js_int (js_read gfExp i)"

text \<open>
  \<open>polyMul\<close>: the result array has \<open>p.length + q.length - 1\<close> zeros (no call passes two
  empty arrays, for which \<open>new Array(-1)\<close> would raise).
\<close>

definition polyMul :: "int list \<Rightarrow> int list \<Rightarrow> int list" where
  "polyMul p q =
     foldl (\<lambda>res i.
        foldl (\<lambda>res j. res[i + j := res ! (i + j) XOR gmul (p ! i) (q ! j)]) res [0..<length q])
       (replicate (length p + length q - 1) 0) [0..<length p]"

definition polyEval :: "int list \<Rightarrow> int \<Rightarrow> int" where
  "polyEval p x = foldl (\<lambda>res i. gmul res x XOR p ! i) (p ! 0) [1..<length p]"

definition rsGeneratorPoly :: "nat \<Rightarrow> int list" where
  "rsGeneratorPoly nsym = foldl (\<lambda>g i. polyMul g [1, gexp (int i)]) [1] [0..<nsym]"

definition rsEncode :: "int list \<Rightarrow> nat \<Rightarrow> int list" where
  "rsEncode msg nsym =
     (let gen = rsGeneratorPoly nsym;
          msgOut = foldl (\<lambda>out i.
                     let coef = out ! i in
                     if coef \<noteq> 0
                     then foldl (\<lambda>out j. out[i + j := out ! (i + j) XOR gmul (gen ! j) coef])
                            out [1..<length gen]
                     else out)
                   (msg @ replicate nsym 0) [0..<length msg]
      in msg @ map (\<lambda>i. msgOut ! (length msg + i)) [0..<nsym])"

definition rsCalcSyndromes :: "int list \<Rightarrow> nat \<Rightarrow> int list" where
  "rsCalcSyndromes msg nsym = 0 # map (\<lambda>i. polyEval msg (gexp (int i))) [0..<nsym]"

definition rsCheckSyndromes :: "int list \<Rightarrow> bool" where
  "rsCheckSyndromes synd = list_all (\<lambda>s. s = 0) (drop 1 synd)"

text \<open>One iteration of the Berlekamp-Massey loop on the pair \<open>(errLoc, oldLoc)\<close>.\<close>

definition bm_delta :: "int list \<Rightarrow> int list \<Rightarrow> nat \<Rightarrow> int" where
  "bm_delta synd errLoc K =
     foldl (\<lambda>delta j. delta XOR gmul (errLoc ! (length errLoc - 1 - j)) (synd ! (K - j)))
       (synd ! K) [1..<length errLoc]"

definition bm_add_scaled :: "int \<Rightarrow> int list \<Rightarrow> int list \<Rightarrow> int list" where
  "bm_add_scaled delta oldLoc errLoc =
     foldl (\<lambda>e j. e[length e - 1 - j :=
                      e ! (length e - 1 - j) XOR gmul delta (oldLoc ! (length oldLoc - 1 - j))])
       errLoc [0..<length oldLoc]"

definition bm_step :: "int list \<Rightarrow> int list \<times> int list \<Rightarrow> nat \<Rightarrow> int list \<times> int list" where
  "bm_step synd st i =
     (let errLoc = fst st; oldLoc = snd st;
          K = i + 0 + 1;
          delta = bm_delta synd errLoc K;
          oldLoc1 = oldLoc @ [0]
      in if delta \<noteq> 0 then
           let (errLoc2, oldLoc2) =
                 (if length oldLoc1 > length errLoc
                  then (map (\<lambda>c. gmul c delta) oldLoc1, map (\<lambda>c. gmul c (ginv delta)) errLoc)
                  else (errLoc, oldLoc1))
           in (bm_add_scaled delta oldLoc2 errLoc2, oldLoc2)
         else (errLoc, oldLoc1))"

text \<open>The locator after the loop and the removal of leading zeros, before the check.\<close>

definition bm_locator :: "int list \<Rightarrow> nat \<Rightarrow> int list" where
  "bm_locator synd nsym = dropWhile (\<lambda>c. c = 0) (fst (foldl (bm_step synd) ([1], [1]) [0..<nsym]))"

definition rsFindErrorLocator :: "int list \<Rightarrow> nat \<Rightarrow> rs_error + int list" where
  "rsFindErrorLocator synd nsym =
     (let errLoc = bm_locator synd nsym; errs = int (length errLoc) - 1
      in if errs * 2 > int nsym then Inl TooManyErrors else Inr errLoc)"

text \<open>The positions that the Chien search collects, before the check.\<close>

definition chien_positions :: "int list \<Rightarrow> nat \<Rightarrow> nat list" where
  "chien_positions errLoc msgLen =
     map (\<lambda>i. msgLen - 1 - i)
       (filter (\<lambda>i. polyEval errLoc (gexp (255 - int i)) = 0) [0..<msgLen])"

definition rsFindErrors :: "int list \<Rightarrow> nat \<Rightarrow> rs_error + nat list" where
  "rsFindErrors errLoc msgLen =
     (let errs = int (length errLoc) - 1; errPos = chien_positions errLoc msgLen
      in if int (length errPos) \<noteq> errs then Inl LocatorMismatch else Inr errPos)"

definition forney_omega :: "int list \<Rightarrow> int list \<Rightarrow> int list" where
  "forney_omega synd errLoc =
     (let nsym = length synd - 1;
          syndPoly = map (\<lambda>i. synd ! i) (rev [1..<nsym + 1]);
          omega = polyMul syndPoly errLoc
      in if length omega > nsym then drop (length omega - nsym) omega else omega)"

definition forney_errLocPrime :: "nat list \<Rightarrow> nat \<Rightarrow> nat \<Rightarrow> int \<Rightarrow> int" where
  "forney_errLocPrime errPos msgLen i XiInv =
     foldl (\<lambda>errLocPrime j.
        if j \<noteq> i
        then gmul errLocPrime (1 XOR gmul XiInv (gexp (int (msgLen - 1 - errPos ! j))))
        else errLocPrime)
       1 [0..<length errPos]"

fun forney_loop ::
  "int list \<Rightarrow> nat list \<Rightarrow> nat \<Rightarrow> nat list \<Rightarrow> int list \<Rightarrow> rs_error + int list" where
  "forney_loop omega errPos msgLen [] errMag = Inr errMag"
| "forney_loop omega errPos msgLen (i # is) errMag =
     (let Xi = gexp (int (msgLen - 1 - errPos ! i));
          XiInv = ginv Xi;
          omegaVal = polyEval omega XiInv;
          errLocPrime = forney_errLocPrime errPos msgLen i XiInv
      in if errLocPrime = 0 then forney_loop omega errPos msgLen is errMag
         else case gfDiv omegaVal errLocPrime of
                Inl e \<Rightarrow> Inl e
              | Inr v \<Rightarrow> forney_loop omega errPos msgLen is (errMag[errPos ! i := js_int v]))"

definition rsFindErrorMagnitudes ::
  "int list \<Rightarrow> int list \<Rightarrow> nat list \<Rightarrow> nat \<Rightarrow> rs_error + int list" where
  "rsFindErrorMagnitudes synd errLoc errPos msgLen =
     forney_loop (forney_omega synd errLoc) errPos msgLen [0..<length errPos]
       (replicate msgLen 0)"

datatype rs_message = NoData | NoErrorsFound | ErrorsCorrected nat | DecodeFailed rs_error

record rs_result =
  rs_success :: bool
  rs_corrected :: "int list"
  rs_errorPositions :: "nat list"
  rs_errorMagnitudes :: "int list"
  rs_message :: rs_message

text \<open>The \<open>try\<close> block of \<open>correctionResult\<close>; an exception is the left summand.\<close>

definition rs_try_correct :: "int list \<Rightarrow> int list \<Rightarrow> nat \<Rightarrow> rs_error + rs_result" where
  "rs_try_correct recv synd nsym =
     (case rsFindErrorLocator synd nsym of
        Inl e \<Rightarrow> Inl e
      | Inr errLoc \<Rightarrow>
          (case rsFindErrors errLoc (length recv) of
             Inl e \<Rightarrow> Inl e
           | Inr errPos \<Rightarrow>
               (case rsFindErrorMagnitudes synd errLoc errPos (length recv) of
                  Inl e \<Rightarrow> Inl e
                | Inr errMag \<Rightarrow>
                    Inr \<lparr>rs_success = True,
                         rs_corrected =
                           foldl (\<lambda>c pos. c[pos := c ! pos XOR errMag ! pos]) recv errPos,
                         rs_errorPositions = errPos, rs_errorMagnitudes = errMag,
                         rs_message = ErrorsCorrected (length errPos)\<rparr>)))"

definition correctionResult :: "int list \<Rightarrow> nat \<Rightarrow> rs_result" where
  "correctionResult recv nsym =
     (if length recv = 0
      then \<lparr>rs_success = False, rs_corrected = [], rs_errorPositions = [],
            rs_errorMagnitudes = [], rs_message = NoData\<rparr>
      else
        let synd = rsCalcSyndromes recv nsym in
        if rsCheckSyndromes synd
        then \<lparr>rs_success = True, rs_corrected = recv, rs_errorPositions = [],
              rs_errorMagnitudes = [], rs_message = NoErrorsFound\<rparr>
        else case rs_try_correct recv synd nsym of
               Inr res \<Rightarrow> res
             | Inl e \<Rightarrow> \<lparr>rs_success = False, rs_corrected = recv, rs_errorPositions = [],
                           rs_errorMagnitudes = [], rs_message = DecodeFailed e\<rparr>)"

text \<open>The received word: every symbol at a marked position has all its bits flipped.\<close>

definition rs_received :: "int list \<Rightarrow> nat list \<Rightarrow> int list" where
  "rs_received enc errorPositions =
     foldl (\<lambda>enc pos. if pos < length enc then enc[pos := (enc ! pos XOR 0xff) AND 0xff] else enc)
       enc errorPositions"

subsection \<open>Failures of the decoder\<close>

lemma gfDiv_nonzero_divisor: "b \<noteq> 0 \<Longrightarrow> \<exists>v. gfDiv a b = Inr v"
  by (simp add: gfDiv_def split: option.split prod.split)

lemma forney_loop_no_exception: "\<exists>errMag'. forney_loop omega errPos msgLen is errMag = Inr errMag'"
proof (induction "is" arbitrary: errMag)
  case Nil
  show ?case by simp
next
  case (Cons i "is")
  let ?XiInv = "ginv (gexp (int (msgLen - 1 - errPos ! i)))"
  show ?case
  proof (cases "forney_errLocPrime errPos msgLen i ?XiInv = 0")
    case True
    with Cons [of errMag] show ?thesis by (simp add: Let_def)
  next
    case False
    then obtain v where "gfDiv (polyEval omega ?XiInv) (forney_errLocPrime errPos msgLen i ?XiInv)
        = Inr v"
      using gfDiv_nonzero_divisor by blast
    with False Cons [of "errMag[errPos ! i := js_int v]"] show ?thesis
      by (simp add: Let_def)
  qed
qed

lemma rsFindErrorMagnitudes_no_exception:
  "\<exists>errMag. rsFindErrorMagnitudes synd errLoc errPos msgLen = Inr errMag"
  unfolding rsFindErrorMagnitudes_def by (rule forney_loop_no_exception)

lemma rs_try_correct_cases:
  "rs_try_correct recv synd nsym =
     (if int nsym < (int (length (bm_locator synd nsym)) - 1) * 2 then Inl TooManyErrors
      else if int (length (chien_positions (bm_locator synd nsym) (length recv)))
                \<noteq> int (length (bm_locator synd nsym)) - 1
           then Inl LocatorMismatch
      else case rsFindErrorMagnitudes synd (bm_locator synd nsym)
                  (chien_positions (bm_locator synd nsym) (length recv)) (length recv) of
             Inl e \<Rightarrow> Inl e
           | Inr errMag \<Rightarrow>
               Inr \<lparr>rs_success = True,
                    rs_corrected =
                      foldl (\<lambda>c pos. c[pos := c ! pos XOR errMag ! pos]) recv
                        (chien_positions (bm_locator synd nsym) (length recv)),
                    rs_errorPositions = chien_positions (bm_locator synd nsym) (length recv),
                    rs_errorMagnitudes = errMag,
                    rs_message =
                      ErrorsCorrected
                        (length (chien_positions (bm_locator synd nsym) (length recv)))\<rparr>)"
  by (simp add: rs_try_correct_def rsFindErrorLocator_def rsFindErrors_def Let_def)

lemma rs_try_correct_failure:
  "rs_try_correct recv synd nsym = Inl e \<Longrightarrow> e = TooManyErrors \<or> e = LocatorMismatch"
  using rsFindErrorMagnitudes_no_exception
    [of synd "bm_locator synd nsym" "chien_positions (bm_locator synd nsym) (length recv)"
       "length recv"]
  by (auto simp: rs_try_correct_cases split: if_splits)

lemma rs_try_correct_success:
  "rs_try_correct recv synd nsym = Inr res \<Longrightarrow> rs_success res"
  by (auto simp: rs_try_correct_cases split: if_splits sum.splits)

definition rs_failure :: "int list \<Rightarrow> rs_error \<Rightarrow> rs_result" where
  "rs_failure recv e =
     \<lparr>rs_success = False, rs_corrected = recv, rs_errorPositions = [],
      rs_errorMagnitudes = [], rs_message = DecodeFailed e\<rparr>"

text \<open>
  Claim C5: on a non-empty received word with a non-zero syndrome, whenever the locator
  of Berlekamp-Massey, leading zeros removed, has a degree \<open>errs\<close> with \<open>2 errs > nsym\<close>,
  the decoder returns the failure \<open>TooManyErrors\<close>; whenever that degree is within the
  bound and the Chien search collects a number of positions different from \<open>errs\<close>, it
  returns the failure \<open>LocatorMismatch\<close>; a failure has \<open>success = false\<close> and carries
  the received word unmodified; and these two are the only failures of the decoder.
\<close>

theorem C5_uncorrectable_failure:
  assumes "recv \<noteq> []" and "\<not> rsCheckSyndromes (rsCalcSyndromes recv nsym)"
  shows "(int nsym < (int (length (bm_locator (rsCalcSyndromes recv nsym) nsym)) - 1) * 2 \<longrightarrow>
            correctionResult recv nsym = rs_failure recv TooManyErrors)
       \<and> (\<not> int nsym < (int (length (bm_locator (rsCalcSyndromes recv nsym) nsym)) - 1) * 2
          \<and> int (length (chien_positions (bm_locator (rsCalcSyndromes recv nsym) nsym)
                           (length recv)))
              \<noteq> int (length (bm_locator (rsCalcSyndromes recv nsym) nsym)) - 1 \<longrightarrow>
            correctionResult recv nsym = rs_failure recv LocatorMismatch)
       \<and> (\<not> rs_success (correctionResult recv nsym) \<longrightarrow>
            correctionResult recv nsym = rs_failure recv TooManyErrors
            \<or> correctionResult recv nsym = rs_failure recv LocatorMismatch)"
proof -
  let ?synd = "rsCalcSyndromes recv nsym"
  from assms have cr: "correctionResult recv nsym =
      (case rs_try_correct recv ?synd nsym of Inr res \<Rightarrow> res | Inl e \<Rightarrow> rs_failure recv e)"
    by (simp add: correctionResult_def rs_failure_def Let_def split: sum.split)
  have too: "correctionResult recv nsym = rs_failure recv TooManyErrors"
    if "int nsym < (int (length (bm_locator ?synd nsym)) - 1) * 2"
    using that by (simp add: cr rs_try_correct_cases)
  have mis: "correctionResult recv nsym = rs_failure recv LocatorMismatch"
    if "\<not> int nsym < (int (length (bm_locator ?synd nsym)) - 1) * 2
        \<and> int (length (chien_positions (bm_locator ?synd nsym) (length recv)))
            \<noteq> int (length (bm_locator ?synd nsym)) - 1"
    using that by (simp add: cr rs_try_correct_cases)
  have only: "correctionResult recv nsym = rs_failure recv TooManyErrors
        \<or> correctionResult recv nsym = rs_failure recv LocatorMismatch"
    if ns: "\<not> rs_success (correctionResult recv nsym)"
  proof (cases "rs_try_correct recv ?synd nsym")
    case (Inl e)
    with rs_try_correct_failure [OF Inl] show ?thesis by (auto simp: cr)
  next
    case (Inr res)
    with rs_try_correct_success [OF Inr] ns show ?thesis by (simp add: cr)
  qed
  from too mis only show ?thesis by blast
qed

lemma rs_example_too_many:
  "rsCalcSyndromes [254, 252, 2] 2 = [0, 0, 56]" "bm_locator [0, 0, 56] 2 = [56, 0, 1]"
  by code_simp+

lemma rs_example_mismatch:
  "rsCalcSyndromes [0, 1, 3] 2 = [0, 2, 1]" "bm_locator [0, 2, 1] 2 = [142, 1]"
  "chien_positions [142, 1] 3 = []"
  by code_simp+

text \<open>
  Two received words for two parity symbols: \<open>[254, 252, 2]\<close>, whose locator has degree 2,
  and \<open>[0, 1, 3]\<close>, whose locator of degree 1 has no root at a position of the word.
\<close>

theorem C5_uncorrectable_failure_witness:
  "correctionResult [254, 252, 2] 2 = rs_failure [254, 252, 2] TooManyErrors
   \<and> correctionResult [0, 1, 3] 2 = rs_failure [0, 1, 3] LocatorMismatch"
proof -
  have ne: "[254, 252, 2 :: int] \<noteq> []" "[0, 1, 3 :: int] \<noteq> []" by simp_all
  have s1: "\<not> rsCheckSyndromes (rsCalcSyndromes [254, 252, 2] 2)"
    by (simp add: rs_example_too_many rsCheckSyndromes_def)
  have s2: "\<not> rsCheckSyndromes (rsCalcSyndromes [0, 1, 3] 2)"
    by (simp add: rs_example_mismatch rsCheckSyndromes_def)
  have d1: "int 2 < (int (length (bm_locator (rsCalcSyndromes [254, 252, 2] 2) 2)) - 1) * 2"
    by (simp add: rs_example_too_many)
  have d2: "\<not> int 2 < (int (length (bm_locator (rsCalcSyndromes [0, 1, 3] 2) 2)) - 1) * 2
      \<and> int (length (chien_positions (bm_locator (rsCalcSyndromes [0, 1, 3] 2) 2)
                       (length [0, 1, 3 :: int])))
          \<noteq> int (length (bm_locator (rsCalcSyndromes [0, 1, 3] 2) 2)) - 1"
  proof -
    have l: "length [0, 1, 3 :: int] = 3" by simp
    show ?thesis by (simp only: rs_example_mismatch l) simp
  qed
  from C5_uncorrectable_failure [OF ne(1) s1, THEN conjunct1, THEN mp, OF d1]
    C5_uncorrectable_failure [OF ne(2) s2, THEN conjunct2, THEN conjunct1, THEN mp, OF d2]
  show ?thesis by (rule conjI)
qed


section \<open>The field structure of the table arithmetic\<close>

subsection \<open>Doubling is linear\<close>

text \<open>The step of \<open>initGF\<close> from one power of the generator to the next.\<close>

definition xtime :: "int \<Rightarrow> int" where
  "xtime x = (let x1 = push_bit 1 x in if x1 \<ge> GF_SIZE then (x1 XOR GF_POLY) AND 0xff else x1)"

definition byte :: "int \<Rightarrow> bool" where
  "byte a = (0 \<le> a \<and> a \<le> 255)"

lemma byte_top_bit: "byte a \<Longrightarrow> (128 \<le> a) = bit a 7"
proof -
  assume "byte a"
  then have a: "0 \<le> a" "a < 256" by (simp_all add: byte_def)
  have "bit a 7 = odd (a div 128)" by (simp add: bit_iff_odd)
  also from a have "a div 128 = (if 128 \<le> a then 1 else 0)"
    by (auto simp: div_pos_pos_trivial intro: int_div_pos_eq [symmetric, of _ 128 _ "a - 128"])
  finally show ?thesis by simp
qed

lemma byte_take_bit: "byte a = (take_bit 8 a = a)"
  by (auto simp: byte_def take_bit_int_eq_self_iff)

lemma byte_xor: "byte a \<Longrightarrow> byte b \<Longrightarrow> byte (a XOR b)"
  by (simp add: byte_take_bit take_bit_xor)

lemma xtime_take_bit:
  assumes "byte a"
  shows "xtime a = take_bit 8 (push_bit 1 a XOR (if bit a 7 then 0x11d else 0))"
proof (cases "128 \<le> a")
  case True
  with assms have "bit a 7" by (simp add: byte_top_bit)
  moreover from True have "GF_SIZE \<le> push_bit 1 a" by (simp add: GF_SIZE_def push_bit_eq_mult)
  moreover have "x AND 0xff = take_bit 8 x" for x :: int
    by (simp add: take_bit_eq_mask mask_eq_exp_minus_1)
  ultimately show ?thesis by (simp add: xtime_def Let_def GF_POLY_def)
next
  case False
  with assms have nb: "\<not> bit a 7" by (simp add: byte_top_bit)
  from False assms have r: "0 \<le> push_bit 1 a" "push_bit 1 a < 256"
    by (simp_all add: push_bit_eq_mult byte_def)
  then have "take_bit 8 (push_bit 1 a) = push_bit 1 a"
    by (simp add: take_bit_int_eq_self)
  with nb r show ?thesis by (simp add: xtime_def Let_def GF_SIZE_def)
qed

lemma xtime_byte: "byte a \<Longrightarrow> byte (xtime a)"
  by (simp add: xtime_take_bit byte_take_bit)

lemma xtime_xor:
  assumes "byte a" and "byte b"
  shows "xtime (a XOR b) = xtime a XOR xtime b"
proof -
  have "(if bit (a XOR b) 7 then 0x11d else 0 :: int)
      = (if bit a 7 then 0x11d else 0) XOR (if bit b 7 then 0x11d else 0)"
    by (simp add: bit_xor_iff)
  then show ?thesis
    using assms byte_xor [OF assms]
    by (simp only: xtime_take_bit push_bit_xor take_bit_xor) (simp add: ac_simps)
qed

lemma xtime_zero: "xtime 0 = 0"
  by (simp add: xtime_def GF_SIZE_def)

lemma funpow_xtime_byte: "byte a \<Longrightarrow> byte ((xtime ^^ k) a)"
  by (induction k) (simp_all add: xtime_byte)

lemma funpow_xtime_xor:
  "byte a \<Longrightarrow> byte b \<Longrightarrow> (xtime ^^ k) (a XOR b) = (xtime ^^ k) a XOR (xtime ^^ k) b"
  by (induction k) (simp_all add: xtime_xor funpow_xtime_byte)

lemma funpow_xtime_zero: "(xtime ^^ k) 0 = 0"
  by (induction k) (simp_all add: xtime_zero)

text \<open>Each entry of the antilog table is the double of the entry before it.\<close>

lemma gfExp_successor:
  "list_all (\<lambda>i. case js_read gfExp i of
                    None \<Rightarrow> False
                  | Some v \<Rightarrow> js_read gfExp ((i + 1) mod 255) = Some (xtime v)) [0..254]"
  unfolding gfExp_table by code_simp

lemma gfExp_xtime:
  assumes "0 \<le> i" and "i \<le> 254" and "js_read gfExp i = Some v"
  shows "js_read gfExp ((i + 1) mod 255) = Some (xtime v)"
proof -
  from assms(1,2) have "i \<in> set [0..254]" by (simp only: set_upto atLeastAtMost_iff)
  with gfExp_successor
  have "case js_read gfExp i of None \<Rightarrow> False
        | Some v \<Rightarrow> js_read gfExp ((i + 1) mod 255) = Some (xtime v)"
    unfolding list_all_iff by blast
  with assms(3) show ?thesis by simp
qed


subsection \<open>Multiplication of bytes\<close>

definition lg :: "int \<Rightarrow> int" where
  "lg a = js_int (js_read gfLog a)"

lemma js_int_Some [simp]: "js_int (Some v) = v"
  by (simp add: js_int_def)

lemma byte_nonzero: "byte a \<Longrightarrow> a \<noteq> 0 \<Longrightarrow> 1 \<le> a \<and> a \<le> 255"
  by (simp add: byte_def)

lemma lg_props:
  assumes "byte a" and "a \<noteq> 0"
  shows "js_read gfLog a = Some (lg a)" and "0 \<le> lg a" and "lg a \<le> 254"
    and "js_read gfExp (lg a) = Some a"
proof -
  from assms have "1 \<le> a" "a \<le> 255" by (simp_all add: byte_def)
  then obtain l where l: "js_read gfLog a = Some l" "0 \<le> l" "l \<le> 254"
    "js_read gfExp l = Some a"
    by (rule gfLog_byte)
  then have "lg a = l" by (simp add: lg_def)
  with l show "js_read gfLog a = Some (lg a)" "0 \<le> lg a" "lg a \<le> 254"
    "js_read gfExp (lg a) = Some a"
    by simp_all
qed

lemma gexp_low:
  assumes "0 \<le> i" and "i \<le> 254"
  shows "js_read gfExp i = Some (gexp i)" and "byte (gexp i)" and "gexp i \<noteq> 0"
    and "lg (gexp i) = i"
proof -
  from assms obtain v where v: "js_read gfExp i = Some v" "1 \<le> v" "v \<le> 255"
    "js_read gfLog v = Some i"
    by (rule gfExp_low)
  then have "gexp i = v" by (simp add: gexp_def)
  with v show "js_read gfExp i = Some (gexp i)" "byte (gexp i)" "gexp i \<noteq> 0"
    "lg (gexp i) = i"
    by (simp_all add: byte_def lg_def)
qed

lemma gexp_lg: "byte a \<Longrightarrow> a \<noteq> 0 \<Longrightarrow> gexp (lg a) = a"
  by (simp add: gexp_def lg_props(4))

lemma gexp_mod:
  assumes "0 \<le> i" and "i \<le> 511"
  shows "gexp i = gexp (i mod 255)"
proof (cases "i \<le> 508")
  case True
  show ?thesis by (simp only: gexp_def gfExp_mod [OF assms(1) True])
next
  case False
  with assms have r: "255 \<le> i" "i \<le> 511" "0 \<le> i - 255" "i - 255 \<le> 508" by simp_all
  have "gexp i = gexp (i - 255)"
    by (simp only: gexp_def gfExp_high [OF r(1,2)])
  also have "\<dots> = gexp ((i - 255) mod 255)"
    by (simp only: gexp_def gfExp_mod [OF r(3,4)])
  also have "(i - 255) mod 255 = i mod 255"
    by (rule minus_mod_self2)
  finally show ?thesis .
qed

lemma byte_eq_by_lg:
  assumes "byte a" "a \<noteq> 0" "byte b" "b \<noteq> 0" "lg a = lg b"
  shows "a = b"
proof -
  have "a = gexp (lg a)" by (rule gexp_lg [OF assms(1,2), symmetric])
  also have "\<dots> = gexp (lg b)" by (simp only: assms(5))
  also have "\<dots> = b" by (rule gexp_lg [OF assms(3,4)])
  finally show ?thesis .
qed

lemma gmul_zero [simp]: "gmul 0 b = 0" "gmul a 0 = 0"
  by (simp_all add: gmul_def gfMul_def)

lemma gmul_commute: "gmul a b = gmul b a"
  by (auto simp: gmul_def gfMul_def add.commute split: option.splits)

lemma gmul_nonzero:
  assumes "byte a" "a \<noteq> 0" "byte b" "b \<noteq> 0"
  shows "gmul a b = gexp ((lg a + lg b) mod 255)" and "byte (gmul a b)" and "gmul a b \<noteq> 0"
    and "lg (gmul a b) = (lg a + lg b) mod 255"
proof -
  note la = lg_props [OF assms(1,2)] and lb = lg_props [OF assms(3,4)]
  from la lb have r: "0 \<le> lg a + lg b" "lg a + lg b \<le> 511" by simp_all
  from assms la(1) lb(1) have "gmul a b = gexp (lg a + lg b)"
    by (simp add: gmul_def gfMul_def gexp_def)
  then show e: "gmul a b = gexp ((lg a + lg b) mod 255)"
    using gexp_mod [OF r] by simp
  have m: "0 \<le> (lg a + lg b) mod 255" "(lg a + lg b) mod 255 \<le> 254" by simp_all
  from gexp_low [OF m] show "byte (gmul a b)" "gmul a b \<noteq> 0"
    "lg (gmul a b) = (lg a + lg b) mod 255"
    unfolding e by simp_all
qed

lemma gmul_byte:
  assumes "byte a" and "byte b"
  shows "byte (gmul a b)"
proof (cases "a = 0 \<or> b = 0")
  case True
  then show ?thesis by (auto simp: byte_def)
next
  case False
  with assms show ?thesis by (intro gmul_nonzero(2)) simp_all
qed

lemma gmul_eq_0_iff: "byte a \<Longrightarrow> byte b \<Longrightarrow> gmul a b = 0 \<longleftrightarrow> a = 0 \<or> b = 0"
  using gmul_nonzero(3) by auto

lemma lg_one: "lg 1 = 0"
  unfolding lg_def gfLog_table by (simp add: js_read_def)

lemma gexp_zero: "gexp 0 = 1"
  unfolding gexp_def gfExp_table by (simp add: js_read_def)

lemma gexp_one: "gexp 1 = 2"
  unfolding gexp_def gfExp_table by (simp add: js_read_def)

lemma byte_one: "byte 1"
  by (simp add: byte_def)

lemma gmul_one:
  assumes "byte a"
  shows "gmul 1 a = a"
proof (cases "a = 0")
  case True
  then show ?thesis by simp
next
  case False
  have one: "(1::int) \<noteq> 0" by simp
  note p = gmul_nonzero(2,3,4) [OF byte_one one assms False]
  from lg_props(2,3) [OF assms False] have "lg a mod 255 = lg a" by simp
  with p(3) have e: "lg (gmul 1 a) = lg a" by (simp add: lg_one)
  show ?thesis by (rule byte_eq_by_lg [OF p(1,2) assms False e])
qed

lemma gmul_assoc:
  assumes "byte a" "byte b" "byte c"
  shows "gmul (gmul a b) c = gmul a (gmul b c)"
proof (cases "a = 0 \<or> b = 0 \<or> c = 0")
  case True
  then show ?thesis by auto
next
  case False
  then have nz: "a \<noteq> 0" "b \<noteq> 0" "c \<noteq> 0" by simp_all
  note ab = gmul_nonzero(2,3,4) [OF assms(1) nz(1) assms(2) nz(2)]
  note bc = gmul_nonzero(2,3,4) [OF assms(2) nz(2) assms(3) nz(3)]
  note l = gmul_nonzero(2,3,4) [OF ab(1,2) assms(3) nz(3)]
  note r = gmul_nonzero(2,3,4) [OF assms(1) nz(1) bc(1,2)]
  have "lg (gmul (gmul a b) c) = lg (gmul a (gmul b c))"
    unfolding l(3) r(3) ab(3) bc(3) by (simp add: mod_simps add.assoc)
  with l(1,2) r(1,2) show ?thesis by (rule byte_eq_by_lg)
qed

lemma gmul_gexp_xtime:
  assumes "byte b"
  shows "k \<le> 254 \<Longrightarrow> gmul (gexp (int k)) b = (xtime ^^ k) b"
proof (induction k)
  case 0
  with assms show ?case by (simp add: gexp_zero gmul_one)
next
  case (Suc k)
  then have k: "0 \<le> int k" "int k \<le> 254" "0 \<le> int (Suc k)" "int (Suc k) \<le> 254"
    and ih: "gmul (gexp (int k)) b = (xtime ^^ k) b"
    by simp_all
  show ?case
  proof (cases "b = 0")
    case True
    then show ?thesis by (simp add: funpow_xtime_zero xtime_zero)
  next
    case False
    note ek = gexp_low [OF k(1,2)] and ek1 = gexp_low [OF k(3,4)]
    note lb = lg_props [OF assms False]
    let ?m = "(int k + lg b) mod 255"
    have m: "0 \<le> ?m" "?m \<le> 254" by simp_all
    from gmul_nonzero(1) [OF ek(2,3) assms False] ek(4)
    have 1: "gmul (gexp (int k)) b = gexp ?m" by simp
    from gmul_nonzero(1) [OF ek1(2,3) assms False] ek1(4)
    have 2: "gmul (gexp (int (Suc k))) b = gexp ((int (Suc k) + lg b) mod 255)" by simp
    have "js_read gfExp ((?m + 1) mod 255) = Some (xtime (gexp ?m))"
      by (rule gfExp_xtime [OF m gexp_low(1) [OF m]])
    then have "gexp ((?m + 1) mod 255) = xtime (gexp ?m)" by (simp add: gexp_def)
    moreover have "(?m + 1) mod 255 = (int (Suc k) + lg b) mod 255"
      by (simp add: mod_simps add.commute add.left_commute)
    ultimately show ?thesis using 1 2 ih by simp
  qed
qed

lemma gmul_xor:
  assumes "byte a" "byte b" "byte c"
  shows "gmul a (b XOR c) = gmul a b XOR gmul a c"
proof (cases "a = 0")
  case True
  then show ?thesis by simp
next
  case False
  note la = lg_props [OF assms(1) False]
  from la(2,3) have k: "nat (lg a) \<le> 254" "int (nat (lg a)) = lg a" by simp_all
  have a: "a = gexp (int (nat (lg a)))"
    using gexp_lg [OF assms(1) False] k(2) by simp
  have "gmul a x = (xtime ^^ nat (lg a)) x" if "byte x" for x
    by (subst a) (rule gmul_gexp_xtime [OF that k(1)])
  with assms byte_xor [OF assms(2,3)] show ?thesis
    by (simp add: funpow_xtime_xor)
qed

lemma ginv_props:
  assumes "byte a" and "a \<noteq> 0"
  shows "byte (ginv a)" and "ginv a \<noteq> 0" and "gmul a (ginv a) = 1"
proof -
  from assms have "1 \<le> a" "a \<le> 255" by (simp_all add: byte_def)
  from gfMul_gfInverse [OF this] obtain i where
    i: "gfInverse a = Some i" "1 \<le> i" "i \<le> 255" "gfMul a i = Some 1"
    by blast
  then show "byte (ginv a)" "ginv a \<noteq> 0" "gmul a (ginv a) = 1"
    by (simp_all add: ginv_def gmul_def byte_def)
qed

lemma gfDiv_gmul:
  assumes "byte a" "byte b" "b \<noteq> 0"
  shows "gfDiv a b = Inr (Some (gmul a (ginv b)))"
proof (cases "a = 0")
  case True
  with assms show ?thesis by (simp add: gfDiv_def)
next
  case False
  from assms False have r: "1 \<le> a" "a \<le> 255" "1 \<le> b" "b \<le> 255" by (simp_all add: byte_def)
  from r obtain la lb v where l: "js_read gfLog a = Some la" "js_read gfLog b = Some lb"
    and v: "gfDiv a b = Inr (Some v)" "1 \<le> v" "v \<le> 255"
    and lv: "js_read gfLog v = Some ((la - lb) mod 255)"
    by (rule gfDiv_nonzero)
  from l have ll: "la = lg a" "lb = lg b" by (simp_all add: lg_def)
  from v have bv: "byte v" "v \<noteq> 0" by (simp_all add: byte_def)
  from lv have lgv: "lg v = (lg a - lg b) mod 255" by (simp add: lg_def ll)
  note ib = ginv_props [OF assms(2,3)]
  note p = gmul_nonzero(2,3,4) [OF assms(1) False ib(1,2)]
  from gmul_nonzero(4) [OF assms(2,3) ib(1,2)] ib(3)
  have "(lg b + lg (ginv b)) mod 255 = 0" by (simp add: lg_one)
  then have z: "(lg b + lg (ginv b)) mod 255 = 0" .
  have "lg a + lg (ginv b) = (lg a - lg b) + (lg b + lg (ginv b))" by simp
  then have "(lg a + lg (ginv b)) mod 255
      = ((lg a - lg b) mod 255 + (lg b + lg (ginv b)) mod 255) mod 255"
    by (simp only: mod_add_eq)
  then have "(lg a + lg (ginv b)) mod 255 = (lg a - lg b) mod 255"
    unfolding z by simp
  with p(3) lgv have "lg v = lg (gmul a (ginv b))" by simp
  with bv p(1,2) have "v = gmul a (ginv b)" by (rule byte_eq_by_lg)
  with v(1) show ?thesis by simp
qed

subsection \<open>The field of bytes\<close>

lemma gmul_xor_left:
  "byte a \<Longrightarrow> byte b \<Longrightarrow> byte c \<Longrightarrow> gmul (a XOR b) c = gmul a c XOR gmul b c"
  using gmul_xor [of c a b] by (simp only: gmul_commute [of c])

lemma gmul_ginv_left: "byte a \<Longrightarrow> a \<noteq> 0 \<Longrightarrow> gmul (ginv a) a = 1"
  by (simp only: gmul_commute [of "ginv a" a]) (rule ginv_props(3))

typedef gf = "{a :: int. byte a}"
  by (rule exI [of _ 0]) (simp add: byte_def)

setup_lifting type_definition_gf

instantiation gf :: field
begin

lift_definition zero_gf :: gf is 0
  by (simp add: byte_def)

lift_definition one_gf :: gf is 1
  by (simp add: byte_def)

lift_definition plus_gf :: "gf \<Rightarrow> gf \<Rightarrow> gf" is "(XOR)"
  by (rule byte_xor)

lift_definition minus_gf :: "gf \<Rightarrow> gf \<Rightarrow> gf" is "(XOR)"
  by (rule byte_xor)

lift_definition uminus_gf :: "gf \<Rightarrow> gf" is "\<lambda>a. a" .

lift_definition times_gf :: "gf \<Rightarrow> gf \<Rightarrow> gf" is gmul
  by (rule gmul_byte)

lift_definition inverse_gf :: "gf \<Rightarrow> gf" is "\<lambda>a. if a = 0 then 0 else ginv a"
  by (simp add: ginv_props(1)) (simp add: byte_def)

lift_definition divide_gf :: "gf \<Rightarrow> gf \<Rightarrow> gf" is "\<lambda>a b. gmul a (if b = 0 then 0 else ginv b)"
  by (simp add: ginv_props(1) gmul_byte) (simp add: byte_def)

instance
proof
  fix a b c :: gf
  show "a + b + c = a + (b + c)" by transfer (simp add: ac_simps)
  show "a + b = b + a" by transfer (simp add: ac_simps)
  show "0 + a = a" by transfer simp
  show "- a + a = 0" by transfer simp
  show "a - b = a + - b" by transfer simp
  show "a * b * c = a * (b * c)" by transfer (rule gmul_assoc)
  show "a * b = b * a" by transfer (rule gmul_commute)
  show "1 * a = a" by transfer (rule gmul_one)
  show "(a + b) * c = a * c + b * c"
    by transfer (rule gmul_xor_left)
  show "(0::gf) \<noteq> 1" by transfer simp
  show "a \<noteq> 0 \<Longrightarrow> inverse a * a = 1"
    by transfer (simp add: gmul_ginv_left)
  show "a div b = a * inverse b" by transfer simp
  show "inverse (0::gf) = 0" by transfer simp
qed

end

lemma gf_add_self [simp]: "a + a = 0" for a :: gf
  by transfer simp

lemma gf_neg [simp]: "- a = a" for a :: gf
  by transfer simp

lemma gf_diff: "a - b = a + b" for a b :: gf
  by transfer simp

lemma gf_add_eq_0_iff: "a + b = 0 \<longleftrightarrow> a = b" for a b :: gf
  by transfer (simp add: bit_eq_iff bit_xor_iff)

lemma byte_Rep_gf [simp]: "byte (Rep_gf a)"
  using Rep_gf [of a] by simp

lemma Rep_gf_eq_0_iff [simp]: "Rep_gf a = 0 \<longleftrightarrow> a = 0"
  by transfer simp

lemma Rep_gf_inverse: "a \<noteq> 0 \<Longrightarrow> Rep_gf (inverse a) = ginv (Rep_gf a)"
  by transfer simp

lemma Rep_gf_divide:
  "b \<noteq> 0 \<Longrightarrow> gfDiv (Rep_gf a) (Rep_gf b) = Inr (Some (Rep_gf (a / b)))"
  by (simp add: gfDiv_gmul divide_gf.rep_eq)

text \<open>The generator of the multiplicative group: the byte 2.\<close>

lift_definition alpha :: gf is 2
  by (simp add: byte_def)

lemma Rep_gf_alpha_power: "Rep_gf (alpha ^ k) = gexp (int k mod 255)"
proof (induction k)
  case 0
  show ?case by (simp add: one_gf.rep_eq gexp_zero)
next
  case (Suc k)
  let ?m = "int k mod 255"
  have m: "0 \<le> ?m" "?m \<le> 254" by simp_all
  have "Rep_gf (alpha ^ Suc k) = gmul (gexp (int 1)) (gexp ?m)"
    by (simp add: times_gf.rep_eq alpha.rep_eq Suc gexp_one)
  also have "\<dots> = (xtime ^^ 1) (gexp ?m)"
    by (rule gmul_gexp_xtime [OF gexp_low(2) [OF m]]) simp
  also have "\<dots> = xtime (gexp ?m)" by simp
  also have "\<dots> = gexp ((?m + 1) mod 255)"
    using gfExp_xtime [OF m gexp_low(1) [OF m]] by (simp add: gexp_def)
  also have "(?m + 1) mod 255 = int (Suc k) mod 255"
    by (simp add: mod_simps add.commute)
  finally show ?case .
qed

lemma alpha_power_nonzero [simp]: "alpha ^ k \<noteq> 0"
proof -
  have "Rep_gf (alpha ^ k) \<noteq> 0"
    unfolding Rep_gf_alpha_power by (rule gexp_low(3)) simp_all
  then show ?thesis by simp
qed

lemma alpha_nonzero [simp]: "alpha \<noteq> 0"
  using alpha_power_nonzero [of 1] by simp

lemma alpha_power_255: "alpha ^ 255 = 1"
proof -
  have "Rep_gf (alpha ^ 255) = Rep_gf 1"
    by (simp add: Rep_gf_alpha_power gexp_zero one_gf.rep_eq)
  then show ?thesis by (simp only: Rep_gf_inject)
qed

lemma alpha_power_eq_iff: "alpha ^ i = alpha ^ j \<longleftrightarrow> i mod 255 = j mod 255"
proof
  assume "alpha ^ i = alpha ^ j"
  then have "gexp (int i mod 255) = gexp (int j mod 255)"
    by (simp add: Rep_gf_alpha_power [symmetric])
  then have "lg (gexp (int i mod 255)) = lg (gexp (int j mod 255))" by simp
  then have "int i mod 255 = int j mod 255"
    by (simp add: gexp_low(4))
  then have "int (i mod 255) = int (j mod 255)"
    by (simp add: zmod_int)
  then show "i mod 255 = j mod 255" by simp
next
  assume "i mod 255 = j mod 255"
  then have "int i mod 255 = int j mod 255"
    by (metis of_nat_numeral zmod_int)
  then have "Rep_gf (alpha ^ i) = Rep_gf (alpha ^ j)"
    by (simp add: Rep_gf_alpha_power)
  then show "alpha ^ i = alpha ^ j" by (simp only: Rep_gf_inject)
qed

lemma alpha_power_inject:
  "i < 255 \<Longrightarrow> j < 255 \<Longrightarrow> alpha ^ i = alpha ^ j \<Longrightarrow> i = j"
  by (simp add: alpha_power_eq_iff)

lemma gexp_alpha: "i \<le> 511 \<Longrightarrow> gexp (int i) = Rep_gf (alpha ^ i)"
  using gexp_mod [of "int i"] by (simp add: Rep_gf_alpha_power)

lemma inverse_alpha_power:
  assumes "i \<le> 255"
  shows "inverse (alpha ^ i) = alpha ^ (255 - i)"
proof -
  from assms have "alpha ^ i * alpha ^ (255 - i) = alpha ^ 255"
    by (simp add: power_add [symmetric])
  then have "alpha ^ i * alpha ^ (255 - i) = 1" by (simp add: alpha_power_255)
  then show ?thesis by (rule inverse_unique)
qed

lemma gexp_alpha_inverse:
  assumes "i \<le> 255"
  shows "gexp (255 - int i) = Rep_gf (inverse (alpha ^ i))"
proof -
  from assms have e: "255 - int i = int (255 - i)" by simp
  have "gexp (255 - int i) = gexp (int (255 - i))" by (simp only: e)
  also have "\<dots> = Rep_gf (alpha ^ (255 - i))" by (rule gexp_alpha) simp
  also have "\<dots> = Rep_gf (inverse (alpha ^ i))"
    by (simp only: inverse_alpha_power [OF assms])
  finally show ?thesis .
qed

lemma Rep_gf_nth_map: "i < length xs \<Longrightarrow> map Rep_gf xs ! i = Rep_gf (xs ! i)"
  by simp

end
